theory Spec2Isabelle
  imports
    Complex_Main
    "HOL-Library.Multiset"
    "HOL-Library.Char_ord"
    "HOL-Library.List_Lexorder"
    "HOL-Library.Product_Lexorder"
begin

section \<open>FanBlitz: the analytics engine of fanblitz.h\<close>

text \<open>
  The development embeds the analytics core of FanBlitz: the structs \<open>PlayerStats\<close>,
  \<open>TimeSeriesData\<close>, \<open>ConsistencyMetrics\<close>, \<open>TeamPerformance\<close> and
  \<open>PerformanceRanking\<close>, the class \<open>StatisticalAnalyzer\<close> and the class
  \<open>PerformanceAnalyzer\<close>.

  Conventions of the embedding.
  \<^item> A C++ \<open>double\<close> is embedded twice. In the structs and in \<open>PerformanceAnalyzer\<close> it
    is a \<open>real\<close> and every arithmetic operation is exact: the statements proved there
    are about which records are read, grouped, counted and ranked, and about index
    bounds. For \<open>StatisticalAnalyzer\<close> and the methods of \<open>TimeSeriesData\<close>, where a
    statement is an identity between computed numbers, there is a second embedding in
    binary64, with the suffix \<open>_b64\<close>: a \<open>double\<close> is a finite real, an infinity or NaN,
    and every operation rounds to nearest, ties to even, with gradual underflow and
    overflow to infinity.
  \<^item> A C++ \<open>int\<close> is an \<open>int\<close>; \<open>size_t\<close> is a \<open>nat\<close>. The three casts the code
    performs between them and from \<open>double\<close> are written out (\<open>size_t_of_int\<close>,
    \<open>int_of_size_t\<close>, \<open>size_t_of_double\<close>).
  \<^item> \<open>std::string\<close> is \<open>string\<close>, compared bytewise and lexicographically as
    \<open>std::string::operator<\<close> does.
  \<^item> \<open>std::vector\<close> is a list. \<open>operator[]\<close> does no bounds check in C++; the model
    reads through \<open>vec_at\<close>, which returns an error value for an index outside
    the vector, so that an out-of-bounds read is a visible branch.
  \<^item> \<open>std::map\<close> is an association list kept in ascending key order with one entry per
    key, which is also the order in which the code iterates over it.
  \<^item> \<open>std::sort\<close> on a vector of structs is a parameter of the functions that call it.
    The C++ standard promises only that the result is a permutation of the input in
    which no element is ordered before an earlier one (\<open>std_sort_spec\<close>); the order of
    equivalent elements is left to the implementation. The Makefile builds the program
    with \<open>g++\<close>, whose \<open>std::sort\<close> is the introsort of libstdc++; \<open>std_sort\<close> transcribes
    it and is used where a statement depends on what becomes of equivalent elements,
    and to sort vectors of \<open>double\<close>.
\<close>
subsection \<open>Casts and checked vector access\<close>

datatype error = OutOfBounds | CastOutOfRange

definition vec_at :: "'a list \<Rightarrow> nat \<Rightarrow> error + 'a" where
  "vec_at xs i = (if i < length xs then Inr (xs ! i) else Inl OutOfBounds)"



text \<open>\<open>static_cast<int>(n)\<close> of a \<open>size_t\<close> keeps the low 32 bits, read as signed.\<close>

definition int_of_size_t :: "nat \<Rightarrow> int" where
  "int_of_size_t n =
     (let m = int n mod 2 ^ 32 in if m < 2 ^ 31 then m else m - 2 ^ 32)"

subsection \<open>\<open>std::sort\<close>\<close>

definition std_sort_spec :: "('a \<Rightarrow> 'a \<Rightarrow> bool) \<Rightarrow> ('a list \<Rightarrow> 'a list) \<Rightarrow> bool" where
  "std_sort_spec cmp srt \<longleftrightarrow>
     (\<forall>xs. mset (srt xs) = mset xs \<and> sorted_wrt (\<lambda>a b. \<not> cmp b a) (srt xs))"

subsection \<open>\<open>std::sort\<close> of libstdc++\<close>

text \<open>
  The functions of \<open>bits/stl_algo.h\<close> and \<open>bits/stl_heap.h\<close> that \<open>std::sort\<close> runs, under
  their names without the leading underscores: \<open>__lg\<close>, \<open>__unguarded_linear_insert\<close>,
  \<open>__insertion_sort\<close>, \<open>__unguarded_insertion_sort\<close>, \<open>__final_insertion_sort\<close>,
  \<open>__move_median_to_first\<close>, \<open>__unguarded_partition\<close>, \<open>__unguarded_partition_pivot\<close>,
  \<open>__push_heap\<close>, \<open>__adjust_heap\<close>, \<open>__make_heap\<close>, \<open>__pop_heap\<close>, \<open>__heap_select\<close>,
  \<open>__sort_heap\<close>, \<open>__partial_sort\<close>, \<open>__introsort_loop\<close> and \<open>__sort\<close> (\<open>std_sort\<close>).
  An iterator is an index into the vector, and a function that writes through its
  iterators returns the vector. The three unguarded scans of the library
  (\<open>while (comp(val, next))\<close>, \<open>while (comp(first, pivot))\<close>, \<open>while (comp(pivot, last))\<close>)
  rely on a sentinel inside the range; here they also stop at the ends of the vector,
  which makes every function total. \<open>insertion_sort_step\<close> is the body of the loop of
  \<open>__insertion_sort\<close>: \<open>std::move_backward\<close> shifts \<open>[first, i)\<close> one place up and the
  element of \<open>i\<close> goes to \<open>first\<close>. The loop of \<open>__introsort_loop\<close> sorts the upper part by
  a recursive call and goes on with the lower part.
\<close>

definition iter_swap :: "nat \<Rightarrow> nat \<Rightarrow> 'a list \<Rightarrow> 'a list" where
  "iter_swap i j xs = xs[i := xs ! j, j := xs ! i]"

fun lg :: "nat \<Rightarrow> nat" where
  "lg n = (if n < 2 then 0 else Suc (lg (n div 2)))"

declare lg.simps [simp del]

function unguarded_linear_insert_loop ::
  "('a \<Rightarrow> 'a \<Rightarrow> bool) \<Rightarrow> 'a \<Rightarrow> nat \<Rightarrow> 'a list \<Rightarrow> 'a list" where
  "unguarded_linear_insert_loop cmp val lst xs =
     (if 0 < lst \<and> cmp val (xs ! (lst - 1))
      then unguarded_linear_insert_loop cmp val (lst - 1) (xs[lst := xs ! (lst - 1)])
      else xs[lst := val])"
  by pat_completeness auto

termination
  by (relation "measure (\<lambda>(cmp, val, lst, xs). lst)") auto

declare unguarded_linear_insert_loop.simps [simp del]

definition unguarded_linear_insert :: "('a \<Rightarrow> 'a \<Rightarrow> bool) \<Rightarrow> nat \<Rightarrow> 'a list \<Rightarrow> 'a list" where
  "unguarded_linear_insert cmp lst xs = unguarded_linear_insert_loop cmp (xs ! lst) lst xs"

definition insertion_sort_step ::
  "('a \<Rightarrow> 'a \<Rightarrow> bool) \<Rightarrow> nat \<Rightarrow> 'a list \<Rightarrow> nat \<Rightarrow> 'a list" where
  "insertion_sort_step cmp first xs i =
     (if cmp (xs ! i) (xs ! first)
      then take first xs @ xs ! i # take (i - first) (drop first xs) @ drop (Suc i) xs
      else unguarded_linear_insert cmp i xs)"

definition insertion_sort :: "('a \<Rightarrow> 'a \<Rightarrow> bool) \<Rightarrow> nat \<Rightarrow> nat \<Rightarrow> 'a list \<Rightarrow> 'a list" where
  "insertion_sort cmp first lst xs =
     (if first = lst then xs
      else foldl (insertion_sort_step cmp first) xs [first + 1..<lst])"

definition unguarded_insertion_sort ::
  "('a \<Rightarrow> 'a \<Rightarrow> bool) \<Rightarrow> nat \<Rightarrow> nat \<Rightarrow> 'a list \<Rightarrow> 'a list" where
  "unguarded_insertion_sort cmp first lst xs =
     foldl (\<lambda>ys i. unguarded_linear_insert cmp i ys) xs [first..<lst]"

definition S_threshold :: nat where
  "S_threshold = 16"

definition final_insertion_sort ::
  "('a \<Rightarrow> 'a \<Rightarrow> bool) \<Rightarrow> nat \<Rightarrow> nat \<Rightarrow> 'a list \<Rightarrow> 'a list" where
  "final_insertion_sort cmp first lst xs =
     (if lst - first > S_threshold
      then unguarded_insertion_sort cmp (first + S_threshold) lst
             (insertion_sort cmp first (first + S_threshold) xs)
      else insertion_sort cmp first lst xs)"

definition move_median_to_first ::
  "('a \<Rightarrow> 'a \<Rightarrow> bool) \<Rightarrow> nat \<Rightarrow> nat \<Rightarrow> nat \<Rightarrow> nat \<Rightarrow> 'a list \<Rightarrow> 'a list" where
  "move_median_to_first cmp result a b c xs =
     (if cmp (xs ! a) (xs ! b) then
        (if cmp (xs ! b) (xs ! c) then iter_swap result b xs
         else if cmp (xs ! a) (xs ! c) then iter_swap result c xs
         else iter_swap result a xs)
      else if cmp (xs ! a) (xs ! c) then iter_swap result a xs
      else if cmp (xs ! b) (xs ! c) then iter_swap result c xs
      else iter_swap result b xs)"

function scan_up :: "('a \<Rightarrow> 'a \<Rightarrow> bool) \<Rightarrow> 'a \<Rightarrow> nat \<Rightarrow> 'a list \<Rightarrow> nat" where
  "scan_up cmp pivot first xs =
     (if first < length xs \<and> cmp (xs ! first) pivot
      then scan_up cmp pivot (first + 1) xs else first)"
  by pat_completeness auto

termination
  by (relation "measure (\<lambda>(cmp, pivot, first, xs). length xs - first)") auto

declare scan_up.simps [simp del]

function scan_down :: "('a \<Rightarrow> 'a \<Rightarrow> bool) \<Rightarrow> 'a \<Rightarrow> nat \<Rightarrow> 'a list \<Rightarrow> nat" where
  "scan_down cmp pivot lst xs =
     (if 0 < lst \<and> cmp pivot (xs ! lst)
      then scan_down cmp pivot (lst - 1) xs else lst)"
  by pat_completeness auto

termination
  by (relation "measure (\<lambda>(cmp, pivot, lst, xs). lst)") auto

declare scan_down.simps [simp del]

function unguarded_partition ::
  "('a \<Rightarrow> 'a \<Rightarrow> bool) \<Rightarrow> nat \<Rightarrow> nat \<Rightarrow> nat \<Rightarrow> 'a list \<Rightarrow> nat \<times> 'a list" where
  "unguarded_partition cmp first lst pivot xs =
     (let first1 = scan_up cmp (xs ! pivot) first xs;
          lst1 = scan_down cmp (xs ! pivot) (lst - 1) xs
      in if \<not> first1 < lst1 then (first1, xs)
         else unguarded_partition cmp (first1 + 1) lst1 pivot (iter_swap first1 lst1 xs))"
  by pat_completeness auto

termination
proof (relation "measure (\<lambda>(cmp, first, lst, pivot, xs). lst)", goal_cases)
  case 1
  then show ?case by simp
next
  case (2 cmp first lst pivot xs first1 lst1)
  have scan_down_le: "scan_down c p l ys \<le> l" for c :: "'a \<Rightarrow> 'a \<Rightarrow> bool" and p l ys
    by (induction c p l ys rule: scan_down.induct)
       (subst scan_down.simps, auto intro: le_trans[OF _ diff_le_self])
  have "lst1 \<le> lst - 1" unfolding 2(2) by (rule scan_down_le)
  moreover have "0 < lst1" using 2(3) by simp
  ultimately show ?case by simp
qed

declare unguarded_partition.simps [simp del]

definition unguarded_partition_pivot ::
  "('a \<Rightarrow> 'a \<Rightarrow> bool) \<Rightarrow> nat \<Rightarrow> nat \<Rightarrow> 'a list \<Rightarrow> nat \<times> 'a list" where
  "unguarded_partition_pivot cmp first lst xs =
     (let mid = first + (lst - first) div 2
      in unguarded_partition cmp (first + 1) lst first
           (move_median_to_first cmp first (first + 1) mid (lst - 1) xs))"

function push_heap ::
  "('a \<Rightarrow> 'a \<Rightarrow> bool) \<Rightarrow> nat \<Rightarrow> nat \<Rightarrow> nat \<Rightarrow> 'a \<Rightarrow> 'a list \<Rightarrow> 'a list" where
  "push_heap cmp first holeIndex topIndex val xs =
     (let parent = (holeIndex - 1) div 2
      in if holeIndex > topIndex \<and> cmp (xs ! (first + parent)) val
         then push_heap cmp first parent topIndex val (xs[first + holeIndex := xs ! (first + parent)])
         else xs[first + holeIndex := val])"
  by pat_completeness auto

termination
  by (relation "measure (\<lambda>(cmp, first, holeIndex, topIndex, val, xs). holeIndex)") auto

declare push_heap.simps [simp del]

function adjust_heap_loop ::
  "('a \<Rightarrow> 'a \<Rightarrow> bool) \<Rightarrow> nat \<Rightarrow> nat \<Rightarrow> nat \<Rightarrow> 'a list \<Rightarrow> nat \<times> 'a list" where
  "adjust_heap_loop cmp first len secondChild xs =
     (if secondChild < (len - 1) div 2
      then
        let sc = 2 * (secondChild + 1);
            sc1 = (if cmp (xs ! (first + sc)) (xs ! (first + (sc - 1))) then sc - 1 else sc)
        in adjust_heap_loop cmp first len sc1 (xs[first + secondChild := xs ! (first + sc1)])
      else (secondChild, xs))"
  by pat_completeness auto

termination
  by (relation "measure (\<lambda>(cmp, first, len, secondChild, xs). len - secondChild)") auto

declare adjust_heap_loop.simps [simp del]

definition adjust_heap ::
  "('a \<Rightarrow> 'a \<Rightarrow> bool) \<Rightarrow> nat \<Rightarrow> nat \<Rightarrow> nat \<Rightarrow> 'a \<Rightarrow> 'a list \<Rightarrow> 'a list" where
  "adjust_heap cmp first holeIndex len val xs =
     (let topIndex = holeIndex;
          (secondChild, xs1) = adjust_heap_loop cmp first len holeIndex xs;
          (holeIndex1, xs2) =
             (if even len \<and> secondChild = (len - 2) div 2
              then (2 * (secondChild + 1) - 1,
                    xs1[first + secondChild := xs1 ! (first + (2 * (secondChild + 1) - 1))])
              else (secondChild, xs1))
      in push_heap cmp first holeIndex1 topIndex val xs2)"

function make_heap_loop ::
  "('a \<Rightarrow> 'a \<Rightarrow> bool) \<Rightarrow> nat \<Rightarrow> nat \<Rightarrow> nat \<Rightarrow> 'a list \<Rightarrow> 'a list" where
  "make_heap_loop cmp first len parent xs =
     (let xs1 = adjust_heap cmp first parent len (xs ! (first + parent)) xs
      in if parent = 0 then xs1 else make_heap_loop cmp first len (parent - 1) xs1)"
  by pat_completeness auto

termination
  by (relation "measure (\<lambda>(cmp, first, len, parent, xs). parent)") auto

declare make_heap_loop.simps [simp del]

definition make_heap :: "('a \<Rightarrow> 'a \<Rightarrow> bool) \<Rightarrow> nat \<Rightarrow> nat \<Rightarrow> 'a list \<Rightarrow> 'a list" where
  "make_heap cmp first lst xs =
     (if lst - first < 2 then xs
      else make_heap_loop cmp first (lst - first) ((lst - first - 2) div 2) xs)"

definition pop_heap :: "('a \<Rightarrow> 'a \<Rightarrow> bool) \<Rightarrow> nat \<Rightarrow> nat \<Rightarrow> nat \<Rightarrow> 'a list \<Rightarrow> 'a list" where
  "pop_heap cmp first lst result xs =
     adjust_heap cmp first 0 (lst - first) (xs ! result) (xs[result := xs ! first])"

definition heap_select ::
  "('a \<Rightarrow> 'a \<Rightarrow> bool) \<Rightarrow> nat \<Rightarrow> nat \<Rightarrow> nat \<Rightarrow> 'a list \<Rightarrow> 'a list" where
  "heap_select cmp first middle lst xs =
     foldl (\<lambda>ys i. if cmp (ys ! i) (ys ! first) then pop_heap cmp first middle i ys else ys)
       (make_heap cmp first middle xs) [middle..<lst]"

function sort_heap :: "('a \<Rightarrow> 'a \<Rightarrow> bool) \<Rightarrow> nat \<Rightarrow> nat \<Rightarrow> 'a list \<Rightarrow> 'a list" where
  "sort_heap cmp first lst xs =
     (if lst - first > 1
      then sort_heap cmp first (lst - 1) (pop_heap cmp first (lst - 1) (lst - 1) xs)
      else xs)"
  by pat_completeness auto

termination
  by (relation "measure (\<lambda>(cmp, first, lst, xs). lst - first)") auto

declare sort_heap.simps [simp del]

definition partial_sort ::
  "('a \<Rightarrow> 'a \<Rightarrow> bool) \<Rightarrow> nat \<Rightarrow> nat \<Rightarrow> nat \<Rightarrow> 'a list \<Rightarrow> 'a list" where
  "partial_sort cmp first middle lst xs =
     sort_heap cmp first middle (heap_select cmp first middle lst xs)"

function introsort_loop ::
  "('a \<Rightarrow> 'a \<Rightarrow> bool) \<Rightarrow> nat \<Rightarrow> nat \<Rightarrow> nat \<Rightarrow> 'a list \<Rightarrow> 'a list" where
  "introsort_loop cmp first lst depth_limit xs =
     (if lst - first > S_threshold then
        (if depth_limit = 0 then partial_sort cmp first lst lst xs
         else
           (case unguarded_partition_pivot cmp first lst xs of
              (cut_i, xs1) \<Rightarrow>
                introsort_loop cmp first cut_i (depth_limit - 1)
                  (introsort_loop cmp cut_i lst (depth_limit - 1) xs1)))
      else xs)"
  by pat_completeness auto

termination
  by (relation "measure (\<lambda>(cmp, first, lst, depth_limit, xs). depth_limit)") auto

declare introsort_loop.simps [simp del]

definition std_sort :: "('a \<Rightarrow> 'a \<Rightarrow> bool) \<Rightarrow> 'a list \<Rightarrow> 'a list" where
  "std_sort cmp xs =
     (if xs = [] then xs
      else final_insertion_sort cmp 0 (length xs)
             (introsort_loop cmp 0 (length xs) (lg (length xs) * 2) xs))"

subsection \<open>StatisticalAnalyzer, exact arithmetic\<close>

text \<open>With \<open>double\<close> read as \<open>real\<close>: \<open>calculate_mean\<close> and \<open>calculate_correlation\<close>, which
  \<open>calculate_player_correlation\<close> calls, and \<open>calculate_percentile\<close>, whose index
  computations are examined below.\<close>

definition calculate_mean :: "real list \<Rightarrow> real" where
  "calculate_mean data =
     (if data = [] then 0 else foldl (+) 0 data / real (length data))"

text \<open>The loop of \<open>calculate_correlation\<close> runs \<open>i\<close> over \<open>0 .. x.size() - 1\<close> and reads
  \<open>x[i]\<close> and \<open>y[i]\<close>; the guard before it has established \<open>x.size() = y.size()\<close>, so
  both reads are inside their vectors. The loop state is the triple
  \<open>(numerator, sum_sq_x, sum_sq_y)\<close>.\<close>

definition correlation_step ::
  "real list \<Rightarrow> real list \<Rightarrow> real \<Rightarrow> real \<Rightarrow> real \<times> real \<times> real \<Rightarrow> nat \<Rightarrow> real \<times> real \<times> real" where
  "correlation_step x y mean_x mean_y acc i =
     (case acc of (numerator, sum_sq_x, sum_sq_y) \<Rightarrow>
        let diff_x = x ! i - mean_x;
            diff_y = y ! i - mean_y
        in (numerator + diff_x * diff_y,
            sum_sq_x + diff_x * diff_x,
            sum_sq_y + diff_y * diff_y))"

definition calculate_correlation :: "real list \<Rightarrow> real list \<Rightarrow> real" where
  "calculate_correlation x y =
     (if length x \<noteq> length y \<or> length x < 2 then 0
      else
        let mean_x = calculate_mean x;
            mean_y = calculate_mean y
        in (case foldl (correlation_step x y mean_x mean_y) (0, 0, 0) [0..<length x] of
              (numerator, sum_sq_x, sum_sq_y) \<Rightarrow>
                let denominator = sqrt (sum_sq_x * sum_sq_y)
                in if denominator = 0 then 0 else numerator / denominator))"




subsection \<open>Binary64\<close>

text \<open>
  A \<open>double\<close> is a finite real number, an infinity or NaN. The finite doubles are the
  reals \<open>m * 2^(e - 52)\<close> of magnitude below \<open>2^1024\<close>, with \<open>m\<close> an integer below \<open>2^53\<close>
  in magnitude and \<open>- 1022 \<le> e\<close>. \<open>rn_real\<close> rounds a real to the nearest point of that
  grid, ties to the even significand: \<open>binade x\<close> is the exponent \<open>e\<close> with
  \<open>2^e \<le> |x| < 2^(e+1)\<close>, not below \<open>- 1022\<close> (gradual underflow), and \<open>ulp x\<close> is the
  spacing of the grid there. A real is \<open>representable\<close> when rounding leaves it as it is,
  that is, when it lies on the grid. \<open>rn\<close> is the rounding of an arithmetic result: a
  rounded magnitude of \<open>2^1024\<close> or more is an infinity. Every operation is the exact
  operation followed by \<open>rn\<close>, with the rules of IEEE 754 for infinities and NaN, and
  each operation is rounded on its own (no fused multiply-add), as \<open>g++\<close> compiles the
  program for x86-64. The two zeros are identified: no function embedded here divides
  by a zero or looks at the sign of one (\<open>fdiv\<close> gives a division of a non-zero number by
  zero the sign of the numerator).
\<close>

datatype double = Finite real | PosInf | NegInf | NaN

definition round_half_even :: "real \<Rightarrow> int" where
  "round_half_even y =
     (let f = \<lfloor>y\<rfloor>; d = y - of_int f
      in if d < 1 / 2 then f
         else if 1 / 2 < d then f + 1
         else if even f then f else f + 1)"

definition binade :: "real \<Rightarrow> int" where
  "binade x = max \<lfloor>log 2 \<bar>x\<bar>\<rfloor> (- 1022)"

definition ulp :: "real \<Rightarrow> real" where
  "ulp x = 2 powi (binade x - 52)"

definition rn_real :: "real \<Rightarrow> real" where
  "rn_real x = (if x = 0 then 0 else of_int (round_half_even (x / ulp x)) * ulp x)"

definition rn :: "real \<Rightarrow> double" where
  "rn x =
     (if 2 powi 1024 \<le> \<bar>rn_real x\<bar> then (if 0 < x then PosInf else NegInf)
      else Finite (rn_real x))"

definition representable :: "real \<Rightarrow> bool" where
  "representable y \<longleftrightarrow> rn_real y = y"

text \<open>The operations of the language on \<open>double\<close>: unary minus, \<open>+\<close>, \<open>-\<close>, \<open>*\<close>, \<open>/\<close>,
  \<open>std::sqrt\<close>, \<open>==\<close>, \<open><\<close>, \<open><=\<close>, \<open>std::floor\<close>, \<open>std::ceil\<close>, the conversion of a
  \<open>size_t\<close> to \<open>double\<close> and the cast of a \<open>double\<close> to \<open>size_t\<close>.\<close>

fun fneg :: "double \<Rightarrow> double" where
  "fneg (Finite a) = Finite (- a)"
| "fneg PosInf = NegInf"
| "fneg NegInf = PosInf"
| "fneg NaN = NaN"

fun fadd :: "double \<Rightarrow> double \<Rightarrow> double" where
  "fadd (Finite a) (Finite b) = rn (a + b)"
| "fadd NaN _ = NaN"
| "fadd _ NaN = NaN"
| "fadd PosInf NegInf = NaN"
| "fadd NegInf PosInf = NaN"
| "fadd PosInf _ = PosInf"
| "fadd NegInf _ = NegInf"
| "fadd _ PosInf = PosInf"
| "fadd _ NegInf = NegInf"

definition fsub :: "double \<Rightarrow> double \<Rightarrow> double" where
  "fsub a b = fadd a (fneg b)"

fun fmul :: "double \<Rightarrow> double \<Rightarrow> double" where
  "fmul (Finite a) (Finite b) = rn (a * b)"
| "fmul NaN _ = NaN"
| "fmul _ NaN = NaN"
| "fmul (Finite a) PosInf = (if a = 0 then NaN else if 0 < a then PosInf else NegInf)"
| "fmul (Finite a) NegInf = (if a = 0 then NaN else if 0 < a then NegInf else PosInf)"
| "fmul PosInf (Finite b) = (if b = 0 then NaN else if 0 < b then PosInf else NegInf)"
| "fmul NegInf (Finite b) = (if b = 0 then NaN else if 0 < b then NegInf else PosInf)"
| "fmul PosInf PosInf = PosInf"
| "fmul PosInf NegInf = NegInf"
| "fmul NegInf PosInf = NegInf"
| "fmul NegInf NegInf = PosInf"

fun fdiv :: "double \<Rightarrow> double \<Rightarrow> double" where
  "fdiv (Finite a) (Finite b) =
     (if b = 0 then (if a = 0 then NaN else if 0 < a then PosInf else NegInf)
      else rn (a / b))"
| "fdiv NaN _ = NaN"
| "fdiv _ NaN = NaN"
| "fdiv (Finite a) PosInf = Finite 0"
| "fdiv (Finite a) NegInf = Finite 0"
| "fdiv PosInf (Finite b) = (if 0 \<le> b then PosInf else NegInf)"
| "fdiv NegInf (Finite b) = (if 0 \<le> b then NegInf else PosInf)"
| "fdiv PosInf PosInf = NaN"
| "fdiv PosInf NegInf = NaN"
| "fdiv NegInf PosInf = NaN"
| "fdiv NegInf NegInf = NaN"

fun fsqrt :: "double \<Rightarrow> double" where
  "fsqrt (Finite a) = (if a < 0 then NaN else rn (sqrt a))"
| "fsqrt PosInf = PosInf"
| "fsqrt NegInf = NaN"
| "fsqrt NaN = NaN"

fun feq :: "double \<Rightarrow> double \<Rightarrow> bool" where
  "feq (Finite a) (Finite b) = (a = b)"
| "feq PosInf PosInf = True"
| "feq NegInf NegInf = True"
| "feq _ _ = False"


fun fle :: "double \<Rightarrow> double \<Rightarrow> bool" where
  "fle (Finite a) (Finite b) = (a \<le> b)"
| "fle NaN _ = False"
| "fle _ NaN = False"
| "fle NegInf _ = True"
| "fle _ PosInf = True"
| "fle _ _ = False"



definition double_of_size_t :: "nat \<Rightarrow> double" where
  "double_of_size_t n = rn (real n)"


subsection \<open>StatisticalAnalyzer in binary64\<close>

text \<open>
  The functions of \<open>StatisticalAnalyzer\<close> with every operation rounded. \<open>std::accumulate\<close>
  adds from the left, starting from \<open>0.0\<close>; the divisor \<open>data.size()\<close> is converted to
  \<open>double\<close>; \<open>std::sort\<close> on a vector of \<open>double\<close> compares with \<open><\<close>.
\<close>

definition calculate_mean_b64 :: "double list \<Rightarrow> double" where
  "calculate_mean_b64 data =
     (if data = [] then Finite 0
      else fdiv (foldl fadd (Finite 0) data) (double_of_size_t (length data)))"


definition calculate_std_dev_b64 :: "double list \<Rightarrow> double" where
  "calculate_std_dev_b64 data =
     (if length data < 2 then Finite 0
      else
        let mean = calculate_mean_b64 data;
            sq_sum = foldl (\<lambda>s val. fadd s (fmul (fsub val mean) (fsub val mean))) (Finite 0) data
        in fsqrt (fdiv sq_sum (double_of_size_t (length data - 1))))"

definition correlation_step_b64 ::
  "double list \<Rightarrow> double list \<Rightarrow> double \<Rightarrow> double \<Rightarrow> double \<times> double \<times> double \<Rightarrow> nat \<Rightarrow>
     double \<times> double \<times> double" where
  "correlation_step_b64 x y mean_x mean_y acc i =
     (case acc of (numerator, sum_sq_x, sum_sq_y) \<Rightarrow>
        let diff_x = fsub (x ! i) mean_x;
            diff_y = fsub (y ! i) mean_y
        in (fadd numerator (fmul diff_x diff_y),
            fadd sum_sq_x (fmul diff_x diff_x),
            fadd sum_sq_y (fmul diff_y diff_y)))"

definition calculate_correlation_b64 :: "double list \<Rightarrow> double list \<Rightarrow> double" where
  "calculate_correlation_b64 x y =
     (if length x \<noteq> length y \<or> length x < 2 then Finite 0
      else
        let mean_x = calculate_mean_b64 x;
            mean_y = calculate_mean_b64 y
        in (case foldl (correlation_step_b64 x y mean_x mean_y)
                   (Finite 0, Finite 0, Finite 0) [0..<length x] of
              (numerator, sum_sq_x, sum_sq_y) \<Rightarrow>
                let denominator = fsqrt (fmul sum_sq_x sum_sq_y)
                in if feq denominator (Finite 0) then Finite 0
                   else fdiv numerator denominator))"




text \<open>The value of the variable \<open>sum_sq_x\<close> of \<open>calculate_correlation\<close> when its loop
  ends.\<close>

definition sum_sq_x_b64 :: "double list \<Rightarrow> double list \<Rightarrow> double" where
  "sum_sq_x_b64 x y =
     fst (snd (foldl (correlation_step_b64 x y (calculate_mean_b64 x) (calculate_mean_b64 y))
                 (Finite 0, Finite 0, Finite 0) [0..<length x]))"

subsection \<open>\<open>std::map\<close>\<close>

text \<open>A \<open>std::map\<close> is the list of its entries in ascending key order. \<open>find\<close> is
  \<^const>\<open>map_of\<close>. \<open>map_modify k d f m\<close> is the statement \<open>m[k] = f(m[k])\<close>: \<open>operator[]\<close>
  inserts the default-constructed value \<open>d\<close> when the key is absent, and the entry is
  then updated in place. \<open>map_subscript k d m\<close> is a read through \<open>operator[]\<close>: it
  returns the value and the map, which has a new entry when the key was absent.\<close>

type_synonym ('k, 'v) std_map = "('k \<times> 'v) list"

fun map_modify :: "'k::linorder \<Rightarrow> 'v \<Rightarrow> ('v \<Rightarrow> 'v) \<Rightarrow> ('k, 'v) std_map \<Rightarrow> ('k, 'v) std_map" where
  "map_modify k d f [] = [(k, f d)]"
| "map_modify k d f ((k', v) # m) =
     (if k = k' then (k', f v) # m
      else if k < k' then (k, f d) # (k', v) # m
      else (k', v) # map_modify k d f m)"

definition map_subscript :: "'k::linorder \<Rightarrow> 'v \<Rightarrow> ('k, 'v) std_map \<Rightarrow> 'v \<times> ('k, 'v) std_map" where
  "map_subscript k d m =
     (case map_of m k of
        Some v \<Rightarrow> (v, m)
      | None \<Rightarrow> (d, map_modify k d (\<lambda>v. v) m))"

subsection \<open>The structs\<close>

text \<open>\<open>PlayerStats\<close> keeps the field names of the source. The other structs share field
  names with it and with each other (\<open>player_name\<close>, \<open>season\<close>, \<open>average_rating\<close>, ...),
  so their fields carry the prefixes \<open>ts_\<close>, \<open>cm_\<close>, \<open>tp_\<close> and \<open>pr_\<close>.\<close>

record PlayerStats =
  player_id :: string
  player_name :: string
  team :: string
  position :: string
  season :: string
  matches_played :: int
  minutes_played :: int
  goals :: int
  assists :: int
  shots :: int
  shots_on_target :: int
  passes :: int
  pass_accuracy :: real
  tackles :: int
  interceptions :: int
  goals_per_match :: real
  assists_per_match :: real
  rating :: real

record TimeSeriesData =
  ts_seasons :: "string list"
  ts_values :: "real list"
  ts_metric_name :: string
  ts_player_name :: string

definition mean :: "TimeSeriesData \<Rightarrow> real" where
  "mean ts =
     (if ts_values ts = [] then 0
      else foldl (+) 0 (ts_values ts) / real (length (ts_values ts)))"

definition std_dev :: "TimeSeriesData \<Rightarrow> real" where
  "std_dev ts =
     (if length (ts_values ts) < 2 then 0
      else
        let avg = mean ts;
            sq_sum = foldl (\<lambda>s val. s + (val - avg) * (val - avg)) 0 (ts_values ts)
        in sqrt (sq_sum / real (length (ts_values ts) - 1)))"

definition coefficient_of_variation :: "TimeSeriesData \<Rightarrow> real" where
  "coefficient_of_variation ts =
     (let avg = mean ts
      in if avg = 0 then 0 else (std_dev ts / avg) * 100)"

text \<open>The three methods of \<open>TimeSeriesData\<close> in binary64. They read the member \<open>values\<close>
  only, which is their argument here.\<close>

definition mean_b64 :: "double list \<Rightarrow> double" where
  "mean_b64 vs =
     (if vs = [] then Finite 0
      else fdiv (foldl fadd (Finite 0) vs) (double_of_size_t (length vs)))"

definition std_dev_b64 :: "double list \<Rightarrow> double" where
  "std_dev_b64 vs =
     (if length vs < 2 then Finite 0
      else
        let avg = mean_b64 vs;
            sq_sum = foldl (\<lambda>s val. fadd s (fmul (fsub val avg) (fsub val avg))) (Finite 0) vs
        in fsqrt (fdiv sq_sum (double_of_size_t (length vs - 1))))"

definition coefficient_of_variation_b64 :: "double list \<Rightarrow> double" where
  "coefficient_of_variation_b64 vs =
     (let avg = mean_b64 vs
      in if feq avg (Finite 0) then Finite 0
         else fmul (fdiv (std_dev_b64 vs) avg) (Finite 100))"

record ConsistencyMetrics =
  cm_player_name :: string
  cm_average_rating :: real
  cm_std_deviation :: real
  cm_consistency_score :: real
  cm_cv_percentage :: real
  cm_seasons_played :: int

text \<open>The constructor \<open>ConsistencyMetrics()\<close>; the name is assigned right after it.\<close>

definition ConsistencyMetrics_init :: "string \<Rightarrow> ConsistencyMetrics" where
  "ConsistencyMetrics_init pname =
     \<lparr>cm_player_name = pname, cm_average_rating = 0, cm_std_deviation = 0,
      cm_consistency_score = 0, cm_cv_percentage = 0, cm_seasons_played = 0\<rparr>"

record TeamPerformance =
  tp_team_name :: string
  tp_season :: string
  tp_total_goals :: int
  tp_total_assists :: int
  tp_average_rating :: real
  tp_total_matches :: int
  tp_win_rate :: real

definition TeamPerformance_init :: TeamPerformance where
  "TeamPerformance_init =
     \<lparr>tp_team_name = [], tp_season = [], tp_total_goals = 0, tp_total_assists = 0,
      tp_average_rating = 0, tp_total_matches = 0, tp_win_rate = 0\<rparr>"

text \<open>\<open>PerformanceRanking\<close> has no constructor: a fresh \<open>rank\<close> is not initialised, which
  the model records as \<open>None\<close>. The other scalar fields are all assigned before the
  struct is used.\<close>

record PerformanceRanking =
  pr_rank :: "int option"
  pr_player_name :: string
  pr_position :: string
  pr_score :: real
  pr_average_rating :: real
  pr_consistency_score :: real
  pr_seasons_played :: int

definition CONSISTENCY_WEIGHT :: real where
  "CONSISTENCY_WEIGHT = 4 / 10"

definition AVERAGE_WEIGHT :: real where
  "AVERAGE_WEIGHT = 6 / 10"

definition TOP_N_PLAYERS :: int where
  "TOP_N_PLAYERS = 10"

subsection \<open>PerformanceAnalyzer\<close>

record PerformanceAnalyzer =
  all_players :: "PlayerStats list"
  players_by_name :: "(string, PlayerStats list) std_map"
  players_by_team :: "(string, PlayerStats list) std_map"

definition PerformanceAnalyzer_init :: PerformanceAnalyzer where
  "PerformanceAnalyzer_init = \<lparr>all_players = [], players_by_name = [], players_by_team = []\<rparr>"

definition index_players :: "PerformanceAnalyzer \<Rightarrow> PerformanceAnalyzer" where
  "index_players pa =
     foldl
       (\<lambda>pa' player.
          pa'\<lparr>players_by_name :=
                 map_modify (player_name player) [] (\<lambda>v. v @ [player]) (players_by_name pa'),
              players_by_team :=
                 map_modify (team player) [] (\<lambda>v. v @ [player]) (players_by_team pa')\<rparr>)
       (pa\<lparr>players_by_name := [], players_by_team := []\<rparr>)
       (all_players pa)"

text \<open>\<open>load_data\<close> reads a file through \<open>CSVParser\<close>, which is outside the analytics
  core; the model takes the vector the parser returns.\<close>

definition load_data :: "PlayerStats list \<Rightarrow> PerformanceAnalyzer \<Rightarrow> PerformanceAnalyzer" where
  "load_data parsed pa = index_players (pa\<lparr>all_players := parsed\<rparr>)"

text \<open>The comparison passed to \<open>std::sort\<close> in \<open>get_player_time_series\<close>.\<close>

definition season_less :: "PlayerStats \<Rightarrow> PlayerStats \<Rightarrow> bool" where
  "season_less a b \<longleftrightarrow> season a < season b"

definition time_series_step :: "string \<Rightarrow> TimeSeriesData \<Rightarrow> PlayerStats \<Rightarrow> TimeSeriesData" where
  "time_series_step metric ts0 stat =
     (let ts = ts0\<lparr>ts_seasons := ts_seasons ts0 @ [season stat]\<rparr>
      in if metric = ''rating'' then ts\<lparr>ts_values := ts_values ts @ [rating stat]\<rparr>
         else if metric = ''goals'' then ts\<lparr>ts_values := ts_values ts @ [real_of_int (goals stat)]\<rparr>
         else if metric = ''assists'' then ts\<lparr>ts_values := ts_values ts @ [real_of_int (assists stat)]\<rparr>
         else if metric = ''goals_per_match'' then ts\<lparr>ts_values := ts_values ts @ [goals_per_match stat]\<rparr>
         else ts)"

definition get_player_time_series ::
  "(PlayerStats list \<Rightarrow> PlayerStats list) \<Rightarrow> PerformanceAnalyzer \<Rightarrow> string \<Rightarrow> string \<Rightarrow> TimeSeriesData" where
  "get_player_time_series srt pa pname metric =
     (let ts = \<lparr>ts_seasons = [], ts_values = [], ts_metric_name = metric, ts_player_name = pname\<rparr>
      in case map_of (players_by_name pa) pname of
           None \<Rightarrow> ts
         | Some recs \<Rightarrow>
             let player_seasons = srt recs
             in foldl (time_series_step metric) ts player_seasons)"

definition calculate_consistency ::
  "(PlayerStats list \<Rightarrow> PlayerStats list) \<Rightarrow> PerformanceAnalyzer \<Rightarrow> string \<Rightarrow> ConsistencyMetrics" where
  "calculate_consistency srt pa pname =
     (let metrics = ConsistencyMetrics_init pname;
          ts = get_player_time_series srt pa pname ''rating''
      in if ts_values ts = [] then metrics
         else
           let metrics1 = metrics\<lparr>cm_average_rating := mean ts,
                                  cm_std_deviation := std_dev ts,
                                  cm_cv_percentage := coefficient_of_variation ts,
                                  cm_seasons_played := int_of_size_t (length (ts_values ts))\<rparr>
           in metrics1\<lparr>cm_consistency_score := 100 - min 100 (cm_cv_percentage metrics1)\<rparr>)"

definition get_all_consistency_metrics ::
  "(PlayerStats list \<Rightarrow> PlayerStats list) \<Rightarrow> PerformanceAnalyzer \<Rightarrow> ConsistencyMetrics list" where
  "get_all_consistency_metrics srt pa =
     foldl
       (\<lambda>all_metrics pair.
          if 2 \<le> length (snd pair)
          then all_metrics @ [calculate_consistency srt pa (fst pair)]
          else all_metrics)
       [] (players_by_name pa)"


definition make_ranking :: "PerformanceAnalyzer \<Rightarrow> ConsistencyMetrics \<Rightarrow> PerformanceRanking" where
  "make_ranking pa metrics =
     (let ranking =
            \<lparr>pr_rank = None,
             pr_player_name = cm_player_name metrics,
             pr_position = [],
             pr_score = cm_average_rating metrics * AVERAGE_WEIGHT
                        + cm_consistency_score metrics * CONSISTENCY_WEIGHT,
             pr_average_rating = cm_average_rating metrics,
             pr_consistency_score = cm_consistency_score metrics,
             pr_seasons_played = cm_seasons_played metrics\<rparr>
      in case map_of (players_by_name pa) (cm_player_name metrics) of
           Some (first # rest) \<Rightarrow> ranking\<lparr>pr_position := position first\<rparr>
         | _ \<Rightarrow> ranking)"

text \<open>The loop \<open>for (i = 0; i < rankings.size() && i < (size_t) top_n; ++i)\<close>.\<close>

definition assign_ranks :: "nat \<Rightarrow> PerformanceRanking list \<Rightarrow> PerformanceRanking list" where
  "assign_ranks limit rankings =
     foldl
       (\<lambda>rs i. rs[i := (rs ! i)\<lparr>pr_rank := Some (int_of_size_t (i + 1))\<rparr>])
       rankings [0..<min (length rankings) limit]"


definition team_season_step ::
  "((string \<times> string), TeamPerformance) std_map \<Rightarrow> PlayerStats \<Rightarrow> ((string \<times> string), TeamPerformance) std_map" where
  "team_season_step team_season_map player =
     map_modify (team player, season player) TeamPerformance_init
       (\<lambda>perf. perf\<lparr>tp_team_name := team player,
                     tp_season := season player,
                     tp_total_goals := tp_total_goals perf + goals player,
                     tp_total_assists := tp_total_assists perf + assists player,
                     tp_total_matches := tp_total_matches perf + matches_played player,
                     tp_average_rating := tp_average_rating perf + rating player\<rparr>)
       team_season_map"

text \<open>The second loop reads \<open>players_by_team\<close> through \<open>operator[]\<close>, so the analyzer is
  part of the loop state: the state is \<open>(result, players_by_team)\<close>.\<close>

definition team_average_step ::
  "TeamPerformance list \<times> (string, PlayerStats list) std_map \<Rightarrow> (string \<times> string) \<times> TeamPerformance \<Rightarrow>
   TeamPerformance list \<times> (string, PlayerStats list) std_map" where
  "team_average_step acc pair =
     (case acc of (result, by_team) \<Rightarrow>
        let perf = snd pair;
            (members, by_team') = map_subscript (tp_team_name perf) [] by_team;
            player_count = length members;
            perf' = (if player_count > 0
                     then perf\<lparr>tp_average_rating := tp_average_rating perf / real player_count\<rparr>
                     else perf)
        in (result @ [perf'], by_team'))"

definition get_team_performance_by_season ::
  "PerformanceAnalyzer \<Rightarrow> TeamPerformance list \<times> PerformanceAnalyzer" where
  "get_team_performance_by_season pa =
     (let team_season_map = foldl team_season_step [] (all_players pa);
          (result, by_team) = foldl team_average_step ([], players_by_team pa) team_season_map
      in (result, pa\<lparr>players_by_team := by_team\<rparr>))"

text \<open>The inner loop of \<open>calculate_player_correlation\<close> stops at the first \<open>j\<close> with
  \<open>ts2.seasons[j] = ts1.seasons[i]\<close>.\<close>

primrec find_season :: "string \<Rightarrow> string list \<Rightarrow> nat option" where
  "find_season s [] = None"
| "find_season s (t # ts) = (if s = t then Some 0 else map_option Suc (find_season s ts))"

definition common_step ::
  "TimeSeriesData \<Rightarrow> TimeSeriesData \<Rightarrow> error + (real list \<times> real list) \<Rightarrow> nat \<Rightarrow>
   error + (real list \<times> real list)" where
  "common_step ts1 ts2 acc i =
     (case acc of
        Inl e \<Rightarrow> Inl e
      | Inr (common_vals1, common_vals2) \<Rightarrow>
          (case find_season (ts_seasons ts1 ! i) (ts_seasons ts2) of
             None \<Rightarrow> Inr (common_vals1, common_vals2)
           | Some j \<Rightarrow>
               (case vec_at (ts_values ts1) i of
                  Inl e \<Rightarrow> Inl e
                | Inr v1 \<Rightarrow>
                    (case vec_at (ts_values ts2) j of
                       Inl e \<Rightarrow> Inl e
                     | Inr v2 \<Rightarrow> Inr (common_vals1 @ [v1], common_vals2 @ [v2])))))"

definition calculate_player_correlation ::
  "(PlayerStats list \<Rightarrow> PlayerStats list) \<Rightarrow> PerformanceAnalyzer \<Rightarrow> string \<Rightarrow> string \<Rightarrow> string \<Rightarrow>
   error + real" where
  "calculate_player_correlation srt pa player1 player2 metric =
     (let ts1 = get_player_time_series srt pa player1 metric;
          ts2 = get_player_time_series srt pa player2 metric
      in if ts_values ts1 = [] \<or> ts_values ts2 = [] then Inr 0
         else
           (case foldl (common_step ts1 ts2) (Inr ([], [])) [0..<length (ts_seasons ts1)] of
              Inl e \<Rightarrow> Inl e
            | Inr (common_vals1, common_vals2) \<Rightarrow>
                Inr (calculate_correlation common_vals1 common_vals2)))"

subsection \<open>Vocabulary for the statements\<close>

text \<open>The four metric names \<open>get_player_time_series\<close> knows, and the value each selects
  from a record (the \<open>int\<close> fields are converted to \<open>double\<close> by \<open>push_back\<close>).\<close>

definition supported_metric :: "string \<Rightarrow> bool" where
  "supported_metric metric \<longleftrightarrow>
     metric = ''rating'' \<or> metric = ''goals'' \<or> metric = ''assists'' \<or> metric = ''goals_per_match''"

definition projected_metric :: "string \<Rightarrow> PlayerStats \<Rightarrow> real" where
  "projected_metric metric stat =
     (if metric = ''rating'' then rating stat
      else if metric = ''goals'' then real_of_int (goals stat)
      else if metric = ''assists'' then real_of_int (assists stat)
      else goals_per_match stat)"

text \<open>The records of one player, and of one team, in the order of \<open>all_players\<close>.\<close>

definition records_of :: "PlayerStats list \<Rightarrow> string \<Rightarrow> PlayerStats list" where
  "records_of ps pname = filter (\<lambda>p. player_name p = pname) ps"

definition team_records :: "PlayerStats list \<Rightarrow> string \<Rightarrow> PlayerStats list" where
  "team_records ps t = filter (\<lambda>p. team p = t) ps"

text \<open>Two sorting functions, used as instances of \<open>std::sort\<close>: insertion sort by
  season, which keeps equal seasons in their original order, and a descending sort of
  rankings by score.\<close>

definition insertion_sort_by_season :: "PlayerStats list \<Rightarrow> PlayerStats list" where
  "insertion_sort_by_season recs = sort_key season recs"


text \<open>The constructor \<open>PlayerStats()\<close>, and a record as the parser fills it from the
  columns used below.\<close>

definition PlayerStats_init :: PlayerStats where
  "PlayerStats_init =
     \<lparr>player_id = [], player_name = [], team = [], position = [], season = [],
      matches_played = 0, minutes_played = 0, goals = 0, assists = 0, shots = 0,
      shots_on_target = 0, passes = 0, pass_accuracy = 0, tackles = 0, interceptions = 0,
      goals_per_match = 0, assists_per_match = 0, rating = 0\<rparr>"

definition stats :: "string \<Rightarrow> string \<Rightarrow> string \<Rightarrow> real \<Rightarrow> PlayerStats" where
  "stats pname t s r = PlayerStats_init\<lparr>player_name := pname, team := t, season := s, rating := r\<rparr>"

text \<open>The records of one team in one season.\<close>

definition season_records :: "PlayerStats list \<Rightarrow> string \<Rightarrow> string \<Rightarrow> PlayerStats list" where
  "season_records ps t s = filter (\<lambda>p. team p = t \<and> season p = s) ps"

text \<open>The body of the second loop of \<open>get_team_performance_by_season\<close> for a team whose
  records \<open>players_by_team\<close> holds: the division by the number of those records.\<close>

definition averaged :: "PlayerStats list \<Rightarrow> TeamPerformance \<Rightarrow> TeamPerformance" where
  "averaged ps perf =
     (if length (team_records ps (tp_team_name perf)) > 0
      then perf\<lparr>tp_average_rating :=
                  tp_average_rating perf / real (length (team_records ps (tp_team_name perf)))\<rparr>
      else perf)"


subsection \<open>Example data\<close>

text \<open>A player with one season beside a player with two.\<close>

definition one_season_store :: PerformanceAnalyzer where
  "one_season_store =
     load_data [stats ''A'' ''T'' ''2020-21'' 80, stats ''B'' ''T'' ''2020-21'' 70,
                stats ''B'' ''T'' ''2021-22'' 75] PerformanceAnalyzer_init"

text \<open>Seventeen records of one player with the same season label, with the ratings
  \<open>1, ..., 17\<close> in the order of the file.\<close>

definition seventeen_ties :: "PlayerStats list" where
  "seventeen_ties = map (\<lambda>r. stats ''A'' ''T'' ''2020-21'' r)
     [1, 2, 3, 4, 5, 6, 7, 8, 9, 10, 11, 12, 13, 14, 15, 16, 17]"

text \<open>One team, two seasons, three players in each.\<close>

definition two_seasons :: "PlayerStats list" where
  "two_seasons =
     [stats ''A'' ''T'' ''2020-21'' 60, stats ''B'' ''T'' ''2020-21'' 70, stats ''C'' ''T'' ''2020-21'' 80,
      stats ''A'' ''T'' ''2021-22'' 90, stats ''B'' ''T'' ''2021-22'' 90, stats ''C'' ''T'' ''2021-22'' 90]"

text \<open>Three players with two seasons each and one player with a single season.\<close>

definition three_eligible :: "PlayerStats list" where
  "three_eligible =
     [stats ''A'' ''T'' ''2020-21'' 60, stats ''B'' ''T'' ''2020-21'' 70, stats ''C'' ''U'' ''2020-21'' 80,
      stats ''D'' ''U'' ''2020-21'' 50,
      stats ''A'' ''T'' ''2021-22'' 62, stats ''B'' ''T'' ''2021-22'' 74, stats ''C'' ''U'' ''2021-22'' 86]"

text \<open>Two players whose seasons do not overlap.\<close>

definition disjoint_seasons :: "PlayerStats list" where
  "disjoint_seasons = [stats ''A'' ''T'' ''2020-21'' 60, stats ''B'' ''T'' ''2021-22'' 70]"

text \<open>The double nearest to \<open>0.1\<close>.\<close>

definition one_tenth :: double where
  "one_tenth = Finite (3602879701896397 / 2 ^ 55)"

section \<open>Properties of StatisticalAnalyzer\<close>

subsection \<open>Percentile: index bounds\<close>






section \<open>\<open>std::sort\<close> of libstdc++\<close>

text \<open>The sort returns a vector of the length of its argument, and leaves a vector of
  one element, or of two elements in order, as it is.\<close>

lemma length_iter_swap [simp]: "length (iter_swap i j xs) = length xs"
  by (simp add: iter_swap_def)

lemma length_unguarded_linear_insert_loop [simp]:
  "length (unguarded_linear_insert_loop cmp val lst xs) = length xs"
  by (induction cmp val lst xs rule: unguarded_linear_insert_loop.induct)
     (subst unguarded_linear_insert_loop.simps, simp)

lemma length_unguarded_linear_insert [simp]:
  "length (unguarded_linear_insert cmp lst xs) = length xs"
  by (simp add: unguarded_linear_insert_def)

lemma length_insertion_sort_step:
  "first \<le> i \<Longrightarrow> i < length xs \<Longrightarrow> length (insertion_sort_step cmp first xs i) = length xs"
  by (auto simp add: insertion_sort_step_def)

lemma length_insertion_sort_fold:
  "\<forall>i\<in>set js. first \<le> i \<and> i < length xs \<Longrightarrow>
   length (foldl (insertion_sort_step cmp first) xs js) = length xs"
  by (induction js arbitrary: xs) (simp_all add: length_insertion_sort_step)

lemma length_insertion_sort:
  "lst \<le> length xs \<Longrightarrow> length (insertion_sort cmp first lst xs) = length xs"
  unfolding insertion_sort_def by (simp add: length_insertion_sort_fold)

lemma length_unguarded_insertion_sort [simp]:
  "length (unguarded_insertion_sort cmp first lst xs) = length xs"
proof -
  have "length (foldl (\<lambda>ys i. unguarded_linear_insert cmp i ys) xs js) = length xs" for js
    by (induction js arbitrary: xs) simp_all
  then show ?thesis unfolding unguarded_insertion_sort_def .
qed

lemma length_final_insertion_sort:
  "lst \<le> length xs \<Longrightarrow> length (final_insertion_sort cmp first lst xs) = length xs"
  unfolding final_insertion_sort_def by (simp add: length_insertion_sort)

lemma length_move_median_to_first [simp]:
  "length (move_median_to_first cmp result a b c xs) = length xs"
  by (simp add: move_median_to_first_def)

lemma length_unguarded_partition [simp]:
  "length (snd (unguarded_partition cmp first lst pivot xs)) = length xs"
  by (induction cmp first lst pivot xs rule: unguarded_partition.induct)
     (subst unguarded_partition.simps, simp add: Let_def)

lemma length_unguarded_partition_pivot [simp]:
  "length (snd (unguarded_partition_pivot cmp first lst xs)) = length xs"
  by (simp add: unguarded_partition_pivot_def Let_def)

lemma length_push_heap [simp]:
  "length (push_heap cmp first holeIndex topIndex val xs) = length xs"
  by (induction cmp first holeIndex topIndex val xs rule: push_heap.induct)
     (subst push_heap.simps, simp add: Let_def)

lemma length_adjust_heap_loop [simp]:
  "length (snd (adjust_heap_loop cmp first len secondChild xs)) = length xs"
  by (induction cmp first len secondChild xs rule: adjust_heap_loop.induct)
     (subst adjust_heap_loop.simps, simp add: Let_def)

lemma length_adjust_heap [simp]:
  "length (adjust_heap cmp first holeIndex len val xs) = length xs"
proof -
  obtain sc xs1 where a: "adjust_heap_loop cmp first len holeIndex xs = (sc, xs1)"
    by (cases "adjust_heap_loop cmp first len holeIndex xs")
  have "length xs1 = length xs"
    using length_adjust_heap_loop[of cmp first len holeIndex xs] a by simp
  then show ?thesis by (simp add: adjust_heap_def a Let_def)
qed

lemma length_make_heap_loop [simp]:
  "length (make_heap_loop cmp first len parent xs) = length xs"
  by (induction cmp first len parent xs rule: make_heap_loop.induct)
     (subst make_heap_loop.simps, simp add: Let_def)

lemma length_make_heap [simp]: "length (make_heap cmp first lst xs) = length xs"
  by (simp add: make_heap_def)

lemma length_pop_heap [simp]: "length (pop_heap cmp first lst result xs) = length xs"
  by (simp add: pop_heap_def)

lemma length_heap_select [simp]: "length (heap_select cmp first middle lst xs) = length xs"
proof -
  have "length (foldl (\<lambda>ys i. if cmp (ys ! i) (ys ! first) then pop_heap cmp first middle i ys else ys)
       ys js) = length ys" for ys js
    by (induction js arbitrary: ys) simp_all
  then show ?thesis unfolding heap_select_def by simp
qed

lemma length_sort_heap [simp]: "length (sort_heap cmp first lst xs) = length xs"
  by (induction cmp first lst xs rule: sort_heap.induct)
     (subst sort_heap.simps, simp)

lemma length_partial_sort [simp]: "length (partial_sort cmp first middle lst xs) = length xs"
  by (simp add: partial_sort_def)

lemma length_introsort_loop [simp]:
  "length (introsort_loop cmp first lst depth_limit xs) = length xs"
proof (induction cmp first lst depth_limit xs rule: introsort_loop.induct)
  case (1 cmp first lst depth_limit xs)
  show ?case
  proof (cases "lst - first > S_threshold \<and> depth_limit \<noteq> 0")
    case False
    then show ?thesis by (subst introsort_loop.simps) auto
  next
    case True
    obtain cut_i xs1 where p: "unguarded_partition_pivot cmp first lst xs = (cut_i, xs1)"
      by (cases "unguarded_partition_pivot cmp first lst xs")
    have l1: "length xs1 = length xs"
      using length_unguarded_partition_pivot[of cmp first lst xs] p by simp
    have a: "length (introsort_loop cmp cut_i lst (depth_limit - 1) xs1) = length xs1"
      using 1(1)[of cut_i xs1] True p by simp
    have b: "length (introsort_loop cmp first cut_i (depth_limit - 1)
                (introsort_loop cmp cut_i lst (depth_limit - 1) xs1)) =
             length (introsort_loop cmp cut_i lst (depth_limit - 1) xs1)"
      using 1(2)[of cut_i xs1] True p by simp
    show ?thesis
      using a b l1 by (subst introsort_loop.simps) (simp add: True p)
  qed
qed

lemma length_std_sort [simp]: "length (std_sort cmp xs) = length xs"
  unfolding std_sort_def by (simp add: length_final_insertion_sort)



section \<open>Binary64 arithmetic\<close>

subsection \<open>Rounding to an integer\<close>

lemma round_half_even_of_int [simp]: "round_half_even (of_int k) = k"
  by (simp add: round_half_even_def)

lemma round_half_even_zero [simp]: "round_half_even 0 = 0"
  by (simp add: round_half_even_def)

lemma round_half_even_close:
  assumes "\<bar>y - of_int k\<bar> < 1 / 2"
  shows "round_half_even y = k"
proof -
  have a: "of_int k - 1 / 2 < y" "y < of_int k + 1 / 2" using assms by linarith+
  show ?thesis
  proof (cases "of_int k \<le> y")
    case True
    then have f: "\<lfloor>y\<rfloor> = k" using a(2) by (intro floor_unique) simp_all
    show ?thesis unfolding round_half_even_def Let_def f using a(2) by simp
  next
    case False
    then have f: "\<lfloor>y\<rfloor> = k - 1" using a(1) by (intro floor_unique) simp_all
    show ?thesis unfolding round_half_even_def Let_def f using a(1) by simp
  qed
qed

lemma round_half_even_error: "\<bar>of_int (round_half_even y) - y\<bar> \<le> 1 / 2"
proof -
  have "of_int \<lfloor>y\<rfloor> \<le> y" "y < of_int \<lfloor>y\<rfloor> + 1" by linarith+
  then show ?thesis unfolding round_half_even_def Let_def by (simp add: abs_le_iff)
qed

lemma round_half_even_ge: "real_of_int k \<le> y \<Longrightarrow> k \<le> round_half_even y"
proof -
  assume "real_of_int k \<le> y"
  then have "k \<le> \<lfloor>y\<rfloor>" by (simp add: le_floor_iff)
  moreover have "\<lfloor>y\<rfloor> \<le> round_half_even y"
    unfolding round_half_even_def Let_def by simp
  ultimately show ?thesis by linarith
qed

lemma round_half_even_le: "y \<le> real_of_int k \<Longrightarrow> round_half_even y \<le> k"
proof -
  assume a: "y \<le> real_of_int k"
  show ?thesis
  proof (cases "y = of_int k")
    case True
    then show ?thesis by simp
  next
    case False
    then have "y < of_int k" using a by simp
    then have "\<lfloor>y\<rfloor> < k" by (simp add: floor_less_iff)
    moreover have "round_half_even y \<le> \<lfloor>y\<rfloor> + 1"
      unfolding round_half_even_def Let_def by simp
    ultimately show ?thesis by linarith
  qed
qed

subsection \<open>Binades and the unit in the last place\<close>

lemma powr_int_exponent: "(2::real) powr (real_of_int e) = 2 powi e"
  by (simp add: powr_real_of_int')

lemma floor_log2_bounds:
  assumes "x \<noteq> 0"
  shows "2 powi \<lfloor>log 2 \<bar>x\<bar>\<rfloor> \<le> \<bar>x\<bar>" and "\<bar>x\<bar> < 2 powi (\<lfloor>log 2 \<bar>x\<bar>\<rfloor> + 1)"
proof -
  have p: "0 < \<bar>x\<bar>" using assms by simp
  have "2 powr (real_of_int \<lfloor>log 2 \<bar>x\<bar>\<rfloor>) \<le> \<bar>x\<bar> \<and>
        \<bar>x\<bar> < 2 powr (real_of_int (\<lfloor>log 2 \<bar>x\<bar>\<rfloor> + 1))"
    using floor_log_eq_powr_iff[OF p, of 2 "\<lfloor>log 2 \<bar>x\<bar>\<rfloor>"] by simp
  then show "2 powi \<lfloor>log 2 \<bar>x\<bar>\<rfloor> \<le> \<bar>x\<bar>" and "\<bar>x\<bar> < 2 powi (\<lfloor>log 2 \<bar>x\<bar>\<rfloor> + 1)"
    unfolding powr_int_exponent by simp_all
qed

lemma floor_log2_eq:
  assumes "2 powi e \<le> \<bar>x\<bar>" and "\<bar>x\<bar> < 2 powi (e + 1)"
  shows "\<lfloor>log 2 \<bar>x\<bar>\<rfloor> = e"
proof -
  have "(0::real) < 2 powi e" by simp
  then have p: "0 < \<bar>x\<bar>" using assms(1) by linarith
  have "2 powr (real_of_int e) \<le> \<bar>x\<bar> \<and> \<bar>x\<bar> < 2 powr (real_of_int (e + 1))"
    unfolding powr_int_exponent using assms by simp
  then show ?thesis
    using floor_log_eq_powr_iff[OF p, of 2 e] by simp
qed

lemma binade_normal:
  assumes "2 powi e \<le> \<bar>x\<bar>" and "\<bar>x\<bar> < 2 powi (e + 1)" and "- 1022 \<le> e"
  shows "binade x = e"
  unfolding binade_def floor_log2_eq[OF assms(1,2)] using assms(3) by simp

lemma power_int_two_mono: "a \<le> b \<Longrightarrow> (2::real) powi a \<le> 2 powi b"
  by (rule power_int_increasing) simp_all

lemma power_int_two_less_cancel: "(2::real) powi a < 2 powi b \<Longrightarrow> a < b"
  using power_int_two_mono[of b a] by (cases "a < b") simp_all

lemma binade_subnormal:
  assumes "x \<noteq> 0" and "\<bar>x\<bar> < 2 powi (- 1022)"
  shows "binade x = - 1022"
proof -
  have "2 powi \<lfloor>log 2 \<bar>x\<bar>\<rfloor> < (2::real) powi (- 1022)"
    using floor_log2_bounds(1)[OF assms(1)] assms(2) by linarith
  then have "\<lfloor>log 2 \<bar>x\<bar>\<rfloor> < - 1022" by (rule power_int_two_less_cancel)
  then show ?thesis unfolding binade_def by simp
qed

lemma binade_cases [consumes 1, case_names normal subnormal]:
  assumes "x \<noteq> 0"
  obtains e where "- 1022 \<le> e" "2 powi e \<le> \<bar>x\<bar>" "\<bar>x\<bar> < 2 powi (e + 1)" "binade x = e"
  | "\<bar>x\<bar> < 2 powi (- 1022)" "binade x = - 1022"
proof (cases "- 1022 \<le> \<lfloor>log 2 \<bar>x\<bar>\<rfloor>")
  case True
  note b = floor_log2_bounds[OF assms]
  have "binade x = \<lfloor>log 2 \<bar>x\<bar>\<rfloor>" unfolding binade_def using True by simp
  then show ?thesis using that(1)[OF True b] by simp
next
  case False
  then have "\<lfloor>log 2 \<bar>x\<bar>\<rfloor> + 1 \<le> - 1022" by linarith
  then have "(2::real) powi (\<lfloor>log 2 \<bar>x\<bar>\<rfloor> + 1) \<le> 2 powi (- 1022)" by (rule power_int_two_mono)
  then have s: "\<bar>x\<bar> < 2 powi (- 1022)" using floor_log2_bounds(2)[OF assms] by linarith
  show ?thesis using that(2)[OF s binade_subnormal[OF assms s]] .
qed

lemma ulp_pos [simp]: "0 < ulp x"
  by (simp add: ulp_def)

lemma ulp_nonneg [simp]: "0 \<le> ulp x"
  by (simp add: ulp_def)

lemma ulp_nonzero [simp]: "ulp x \<noteq> 0"
  by (simp add: ulp_def)

lemma rn_real_zero [simp]: "rn_real 0 = 0"
  by (simp add: rn_real_def)

lemma rn_real_eq: "rn_real x = of_int (round_half_even (x / ulp x)) * ulp x"
  by (simp add: rn_real_def)

lemma rn_real_normal:
  assumes "2 powi e \<le> \<bar>x\<bar>" and "\<bar>x\<bar> < 2 powi (e + 1)" and "- 1022 \<le> e"
  shows "rn_real x = of_int (round_half_even (x / 2 powi (e - 52))) * 2 powi (e - 52)"
  unfolding rn_real_eq ulp_def binade_normal[OF assms] ..

lemma rn_real_subnormal:
  assumes "\<bar>x\<bar> < 2 powi (- 1022)"
  shows "rn_real x = of_int (round_half_even (x / 2 powi (- 1074))) * 2 powi (- 1074)"
proof (cases "x = 0")
  case True
  then show ?thesis by simp
next
  case False
  show ?thesis unfolding rn_real_eq ulp_def binade_subnormal[OF False assms] by simp
qed

lemma rn_real_error: "\<bar>rn_real x - x\<bar> \<le> ulp x / 2"
proof -
  have "\<bar>of_int (round_half_even (x / ulp x)) - x / ulp x\<bar> * ulp x \<le> 1 / 2 * ulp x"
    by (intro mult_right_mono round_half_even_error) simp
  moreover have "\<bar>of_int (round_half_even (x / ulp x)) - x / ulp x\<bar> * ulp x =
                 \<bar>of_int (round_half_even (x / ulp x)) * ulp x - x\<bar>"
  proof -
    have "\<bar>of_int (round_half_even (x / ulp x)) - x / ulp x\<bar> * ulp x =
          \<bar>(of_int (round_half_even (x / ulp x)) - x / ulp x) * ulp x\<bar>"
      by (simp add: abs_mult)
    also have "(of_int (round_half_even (x / ulp x)) - x / ulp x) * ulp x =
               of_int (round_half_even (x / ulp x)) * ulp x - x"
      by (simp add: left_diff_distrib)
    finally show ?thesis .
  qed
  ultimately show ?thesis unfolding rn_real_eq by simp
qed

lemma rn_real_nonneg:
  assumes "0 \<le> x"
  shows "0 \<le> rn_real x"
proof -
  have "real_of_int 0 \<le> x / ulp x" using assms by simp
  then have "0 \<le> round_half_even (x / ulp x)" by (rule round_half_even_ge)
  then show ?thesis unfolding rn_real_eq by simp
qed

lemma rn_real_nonpos:
  assumes "x \<le> 0"
  shows "rn_real x \<le> 0"
proof -
  have "x / ulp x \<le> real_of_int 0" using assms by (simp add: divide_nonpos_pos)
  then have "round_half_even (x / ulp x) \<le> 0" by (rule round_half_even_le)
  then show ?thesis unfolding rn_real_eq by (simp add: mult_nonpos_nonneg)
qed

subsection \<open>Representable numbers\<close>

lemma representable_grid: "representable y \<longleftrightarrow> (\<exists>m::int. y = of_int m * ulp y)"
proof
  assume "representable y"
  then have "y = of_int (round_half_even (y / ulp y)) * ulp y"
    unfolding representable_def rn_real_eq by simp
  then show "\<exists>m::int. y = of_int m * ulp y" ..
next
  assume "\<exists>m::int. y = of_int m * ulp y"
  then obtain m :: int where m: "y = of_int m * ulp y" ..
  have "y / ulp y = of_int m" by (subst m) simp
  then show "representable y" unfolding representable_def rn_real_eq using m by simp
qed

lemma rn_real_representable:
  assumes "representable y"
  shows "rn_real y = y"
  using assms unfolding representable_def .

lemma binade_minus [simp]: "binade (- x) = binade x"
  by (simp add: binade_def)

lemma ulp_minus [simp]: "ulp (- x) = ulp x"
  by (simp add: ulp_def)

lemma representable_minus: "representable y \<Longrightarrow> representable (- y)"
proof -
  assume "representable y"
  then obtain m :: int where m: "y = of_int m * ulp y" unfolding representable_grid ..
  have "- y = of_int (- m) * ulp (- y)" using m by simp
  then show ?thesis unfolding representable_grid ..
qed

lemma representable_zero [simp]: "representable 0"
  unfolding representable_grid by (rule exI[of _ 0]) simp

lemma power_int_two_split: "(2::real) powi a = 2 powi (a - b) * 2 powi b"
  by (simp add: power_int_add[symmetric])

lemma significand_normal:
  assumes "2 powi e \<le> \<bar>x :: real\<bar>" and "\<bar>x\<bar> < 2 powi (e + 1)"
  shows "2 ^ 52 \<le> \<bar>x\<bar> / 2 powi (e - 52)" and "\<bar>x\<bar> / 2 powi (e - 52) < 2 ^ 53"
proof -
  have u: "(0::real) < 2 powi (e - 52)" by simp
  have a: "(2::real) powi e = 2 ^ 52 * 2 powi (e - 52)"
    using power_int_two_split[of e "e - 52"] by simp
  have b: "(2::real) powi (e + 1) = 2 ^ 53 * 2 powi (e - 52)"
    using power_int_two_split[of "e + 1" "e - 52"] by simp
  show "2 ^ 52 \<le> \<bar>x\<bar> / 2 powi (e - 52)"
    using assms(1) unfolding a by (simp add: pos_le_divide_eq[OF u])
  show "\<bar>x\<bar> / 2 powi (e - 52) < 2 ^ 53"
    using assms(2) unfolding b by (simp add: pos_divide_less_eq[OF u])
qed

lemma representable_rn_real_pos:
  assumes "0 < x"
  shows "representable (rn_real x)"
proof -
  have x0: "x \<noteq> 0" using assms by simp
  from x0 show ?thesis
  proof (cases rule: binade_cases)
    case (normal e)
    define u :: real where "u = 2 powi (e - 52)"
    define m where "m = round_half_even (x / u)"
    have u: "0 < u" unfolding u_def by simp
    have ux: "ulp x = u" unfolding ulp_def u_def normal(4) ..
    have y: "rn_real x = of_int m * u" unfolding rn_real_eq ux m_def ..
    have s: "2 ^ 52 \<le> x / u" "x / u < 2 ^ 53"
      using significand_normal[OF normal(2,3)] assms unfolding u_def by simp_all
    have "real_of_int (2 ^ 52) \<le> x / u" using s(1) by simp
    then have lo: "2 ^ 52 \<le> m" unfolding m_def by (rule round_half_even_ge)
    have "x / u \<le> real_of_int (2 ^ 53)" using s(2) by simp
    then have hi: "m \<le> 2 ^ 53" unfolding m_def by (rule round_half_even_le)
    have e0: "(2::real) powi e = 2 ^ 52 * u"
      unfolding u_def using power_int_two_split[of e "e - 52"] by simp
    have e1: "(2::real) powi (e + 1) = 2 ^ 53 * u"
      unfolding u_def using power_int_two_split[of "e + 1" "e - 52"] by simp
    have e2: "(2::real) powi (e + 2) = 2 ^ 54 * u"
      unfolding u_def using power_int_two_split[of "e + 2" "e - 52"] by simp
    have mpos: "0 < m" using lo by (rule less_le_trans[rotated]) simp
    have ypos: "\<bar>of_int m * u\<bar> = of_int m * u" using mpos u by simp
    show ?thesis
    proof (cases "m < 2 ^ 53")
      case True
      have "real_of_int (2 ^ 52) \<le> of_int m" using lo by (simp only: of_int_le_iff)
      then have a: "2 powi e \<le> \<bar>of_int m * u\<bar>"
        unfolding ypos e0 using u by simp
      have "real_of_int m < of_int (2 ^ 53)" using True by (simp only: of_int_less_iff)
      then have b: "\<bar>of_int m * u\<bar> < 2 powi (e + 1)"
        unfolding ypos e1 using u by simp
      have "ulp (of_int m * u) = u"
        unfolding ulp_def binade_normal[OF a b normal(1)] by (simp add: u_def)
      then have "of_int m * u = of_int m * ulp (of_int m * u)" by simp
      then show ?thesis unfolding y representable_grid ..
    next
      case False
      then have m: "m = 2 ^ 53" using hi by simp
      have a: "2 powi (e + 1) \<le> \<bar>of_int m * u\<bar>" unfolding ypos e1 m by simp
      have "e + 1 + 1 = e + 2" by simp
      then have b: "\<bar>of_int m * u\<bar> < 2 powi (e + 1 + 1)"
        unfolding ypos m using u by (simp only: e2) simp
      have "ulp (of_int m * u) = 2 powi (e + 1 - 52)"
        unfolding ulp_def using binade_normal[OF a b] normal(1) by simp
      also have "\<dots> = 2 * u"
        unfolding u_def using power_int_two_split[of "e + 1 - 52" "e - 52"] by simp
      finally have "of_int m * u = of_int (2 ^ 52) * ulp (of_int m * u)"
        unfolding m by simp
      then show ?thesis unfolding y representable_grid ..
    qed
  next
    case subnormal
    define u :: real where "u = 2 powi (- 1074)"
    define m where "m = round_half_even (x / u)"
    have u: "0 < u" unfolding u_def by simp
    have ux: "ulp x = u" unfolding ulp_def u_def subnormal(2) by simp
    have y: "rn_real x = of_int m * u" unfolding rn_real_eq ux m_def ..
    have t: "(2::real) powi (- 1022) = 2 ^ 52 * u"
      unfolding u_def using power_int_two_split[of "- 1022" "- 1074"] by simp
    have t1: "(2::real) powi (- 1022 + 1) = 2 ^ 53 * u"
      unfolding u_def using power_int_two_split[of "- 1021" "- 1074"] by simp
    have "x / u < 2 ^ 52" using subnormal(1) assms unfolding t by (simp add: pos_divide_less_eq[OF u])
    then have "x / u \<le> real_of_int (2 ^ 52)" by simp
    then have hi: "m \<le> 2 ^ 52" unfolding m_def by (rule round_half_even_le)
    have "real_of_int 0 \<le> x / u" using assms u by simp
    then have lo: "0 \<le> m" unfolding m_def by (rule round_half_even_ge)
    show ?thesis
    proof (cases "m = 0")
      case True
      then show ?thesis unfolding y by simp
    next
      case False
      then have mpos: "0 < m" using lo by simp
      have ypos: "\<bar>of_int m * u\<bar> = of_int m * u" using mpos u by simp
      have ne: "of_int m * u \<noteq> 0" using mpos u by simp
      have "ulp (of_int m * u) = u"
      proof (cases "m < 2 ^ 52")
        case True
        then have "real_of_int m < of_int (2 ^ 52)" by (simp only: of_int_less_iff)
        then have "\<bar>of_int m * u\<bar> < 2 powi (- 1022)" unfolding ypos t using u by simp
        then show ?thesis unfolding ulp_def using binade_subnormal[OF ne] by (simp add: u_def)
      next
        case False
        then have m: "m = 2 ^ 52" using hi by simp
        have a: "2 powi (- 1022) \<le> \<bar>of_int m * u\<bar>" unfolding ypos t m by simp
        have b: "\<bar>of_int m * u\<bar> < 2 powi (- 1022 + 1)" unfolding ypos t1 m using u by simp
        show ?thesis unfolding ulp_def using binade_normal[OF a b] by (simp add: u_def)
      qed
      then have "of_int m * u = of_int m * ulp (of_int m * u)" by simp
      then show ?thesis unfolding y representable_grid ..
    qed
  qed
qed

lemma round_half_even_minus: "round_half_even (- y) = - round_half_even y"
proof (cases "y - of_int \<lfloor>y\<rfloor> = 1 / 2")
  case True
  then have y: "y = of_int \<lfloor>y\<rfloor> + 1 / 2" by simp
  define f where "f = \<lfloor>y\<rfloor>"
  have yf: "y = of_int f + 1 / 2" using y unfolding f_def .
  have fm: "\<lfloor>- y\<rfloor> = - f - 1"
    by (rule floor_unique) (simp_all add: yf)
  have a: "round_half_even y = (if even f then f else f + 1)"
    unfolding round_half_even_def Let_def f_def[symmetric] by (simp add: yf)
  have b: "round_half_even (- y) = (if even (- f - 1) then - f - 1 else - f)"
    unfolding round_half_even_def Let_def fm by (simp add: yf)
  show ?thesis unfolding a b by simp
next
  case False
  define f where "f = \<lfloor>y\<rfloor>"
  have fl: "of_int f \<le> y" "y < of_int f + 1" unfolding f_def by linarith+
  have ne: "y - of_int f \<noteq> 1 / 2" using False unfolding f_def .
  show ?thesis
  proof (cases "y - of_int f < 1 / 2")
    case True
    then have "\<bar>y - of_int f\<bar> < 1 / 2" using fl by simp
    then have a: "round_half_even y = f" by (rule round_half_even_close)
    have "\<bar>- y - of_int (- f)\<bar> < 1 / 2" using True fl by simp
    then have "round_half_even (- y) = - f" by (rule round_half_even_close)
    then show ?thesis using a by simp
  next
    case False
    then have g: "1 / 2 < y - of_int f" using ne by simp
    then have "\<bar>y - of_int (f + 1)\<bar> < 1 / 2" using fl by simp
    then have a: "round_half_even y = f + 1" by (rule round_half_even_close)
    have "\<bar>- y - of_int (- (f + 1))\<bar> < 1 / 2" using g fl by simp
    then have "round_half_even (- y) = - (f + 1)" by (rule round_half_even_close)
    then show ?thesis using a by simp
  qed
qed

lemma rn_real_minus: "rn_real (- x) = - rn_real x"
  unfolding rn_real_eq by (simp add: round_half_even_minus)

lemma representable_rn_real: "representable (rn_real x)"
proof -
  consider "x = 0" | "0 < x" | "0 < - x" by linarith
  then show ?thesis
  proof cases
    case 1
    then show ?thesis by simp
  next
    case 2
    then show ?thesis by (rule representable_rn_real_pos)
  next
    case 3
    then have "representable (rn_real (- x))" by (rule representable_rn_real_pos)
    then have "representable (- rn_real (- x))" by (rule representable_minus)
    then show ?thesis by (simp add: rn_real_minus)
  qed
qed

lemma rn_real_idem: "rn_real (rn_real x) = rn_real x"
  by (rule rn_real_representable) (rule representable_rn_real)

lemma rn_real_abs: "\<bar>rn_real x\<bar> = rn_real \<bar>x\<bar>"
proof (cases "0 \<le> x")
  case True
  then show ?thesis using rn_real_nonneg[OF True] by simp
next
  case False
  then have "x \<le> 0" by simp
  then have "rn_real x \<le> 0" by (rule rn_real_nonpos)
  then show ?thesis using False by (simp add: rn_real_minus)
qed

lemma rn_real_binade_bounds:
  assumes "2 powi e \<le> \<bar>x\<bar>" and "\<bar>x\<bar> < 2 powi (e + 1)" and "- 1022 \<le> e"
  shows "2 powi e \<le> \<bar>rn_real x\<bar>" and "\<bar>rn_real x\<bar> \<le> 2 powi (e + 1)"
proof -
  define u :: real where "u = 2 powi (e - 52)"
  define m where "m = round_half_even (\<bar>x\<bar> / u)"
  have u: "0 < u" unfolding u_def by simp
  have a: "2 powi e \<le> \<bar>\<bar>x\<bar>\<bar>" "\<bar>\<bar>x\<bar>\<bar> < 2 powi (e + 1)" using assms by simp_all
  have y: "\<bar>rn_real x\<bar> = of_int m * u"
    unfolding rn_real_abs rn_real_normal[OF a assms(3)] m_def u_def ..
  have s: "2 ^ 52 \<le> \<bar>x\<bar> / u" "\<bar>x\<bar> / u < 2 ^ 53"
    using significand_normal[OF assms(1,2)] unfolding u_def by simp_all
  have "real_of_int (2 ^ 52) \<le> \<bar>x\<bar> / u" using s(1) by simp
  then have "2 ^ 52 \<le> m" unfolding m_def by (rule round_half_even_ge)
  then have lo: "real_of_int (2 ^ 52) \<le> of_int m" by (simp only: of_int_le_iff)
  have "\<bar>x\<bar> / u \<le> real_of_int (2 ^ 53)" using s(2) by simp
  then have "m \<le> 2 ^ 53" unfolding m_def by (rule round_half_even_le)
  then have hi: "real_of_int m \<le> of_int (2 ^ 53)" by (simp only: of_int_le_iff)
  have e0: "(2::real) powi e = 2 ^ 52 * u"
    unfolding u_def using power_int_two_split[of e "e - 52"] by simp
  have e1: "(2::real) powi (e + 1) = 2 ^ 53 * u"
    unfolding u_def using power_int_two_split[of "e + 1" "e - 52"] by simp
  show "2 powi e \<le> \<bar>rn_real x\<bar>" unfolding y e0 using lo u by simp
  show "\<bar>rn_real x\<bar> \<le> 2 powi (e + 1)" unfolding y e1 using hi u by simp
qed

lemma rn_real_subnormal_bound:
  assumes "\<bar>x\<bar> < 2 powi (- 1022)"
  shows "\<bar>rn_real x\<bar> \<le> 2 powi (- 1022)"
proof -
  define u :: real where "u = 2 powi (- 1074)"
  define m where "m = round_half_even (\<bar>x\<bar> / u)"
  have u: "0 < u" unfolding u_def by simp
  have a: "\<bar>\<bar>x\<bar>\<bar> < 2 powi (- 1022)" using assms by simp
  have y: "\<bar>rn_real x\<bar> = of_int m * u"
    unfolding rn_real_abs rn_real_subnormal[OF a] m_def u_def ..
  have t: "(2::real) powi (- 1022) = 2 ^ 52 * u"
    unfolding u_def using power_int_two_split[of "- 1022" "- 1074"] by simp
  have "\<bar>x\<bar> / u < 2 ^ 52" using assms unfolding t by (simp add: pos_divide_less_eq[OF u])
  then have "\<bar>x\<bar> / u \<le> real_of_int (2 ^ 52)" by simp
  then have "m \<le> 2 ^ 52" unfolding m_def by (rule round_half_even_le)
  then have "real_of_int m \<le> of_int (2 ^ 52)" by (simp only: of_int_le_iff)
  then show ?thesis unfolding y t using u by simp
qed

lemma rn_real_ge_pow:
  assumes "2 powi k \<le> \<bar>x\<bar>" and "- 1022 \<le> k"
  shows "2 powi k \<le> \<bar>rn_real x\<bar>"
proof -
  have x0: "x \<noteq> 0"
  proof
    assume "x = 0"
    then have "(2::real) powi k \<le> 0" using assms(1) by simp
    moreover have "(0::real) < 2 powi k" by simp
    ultimately show False by linarith
  qed
  from x0 show ?thesis
  proof (cases rule: binade_cases)
    case (normal e)
    have "(2::real) powi k < 2 powi (e + 1)" using assms(1) normal(3) by linarith
    then have "k < e + 1" by (rule power_int_two_less_cancel)
    then have "(2::real) powi k \<le> 2 powi e" by (intro power_int_two_mono) simp
    then show ?thesis using rn_real_binade_bounds(1)[OF normal(2,3,1)] by linarith
  next
    case subnormal
    have "(2::real) powi k < 2 powi (- 1022)" using assms(1) subnormal(1) by linarith
    then have "k < - 1022" by (rule power_int_two_less_cancel)
    then show ?thesis using assms(2) by simp
  qed
qed

lemma rn_real_le_pow:
  assumes "\<bar>x\<bar> < 2 powi k" and "- 1022 \<le> k"
  shows "\<bar>rn_real x\<bar> \<le> 2 powi k"
proof (cases "x = 0")
  case True
  then show ?thesis by simp
next
  case False
  then show ?thesis
  proof (cases rule: binade_cases)
    case (normal e)
    have "(2::real) powi e < 2 powi k" using assms(1) normal(2) by linarith
    then have "e < k" by (rule power_int_two_less_cancel)
    then have "(2::real) powi (e + 1) \<le> 2 powi k" by (intro power_int_two_mono) simp
    then show ?thesis using rn_real_binade_bounds(2)[OF normal(2,3,1)] by linarith
  next
    case subnormal
    have "(2::real) powi (- 1022) \<le> 2 powi k" using assms(2) by (rule power_int_two_mono)
    then show ?thesis using rn_real_subnormal_bound[OF subnormal(1)] by linarith
  qed
qed


lemma representable_pow2:
  assumes "- 1074 \<le> k"
  shows "representable (2 powi k)"
proof (cases "- 1022 \<le> k")
  case True
  have a: "2 powi k \<le> \<bar>(2::real) powi k\<bar>" by simp
  have "(2::real) powi k < 2 powi (k + 1)"
    using power_int_two_split[of "k + 1" k] by simp
  then have b: "\<bar>(2::real) powi k\<bar> < 2 powi (k + 1)" by simp
  have "(2::real) powi k = of_int (2 ^ 52) * 2 powi (k - 52)"
    using power_int_two_split[of k "k - 52"] by simp
  then have "(2::real) powi k = of_int (2 ^ 52) * ulp (2 powi k)"
    unfolding ulp_def binade_normal[OF a b True] .
  then show ?thesis unfolding representable_grid ..
next
  case False
  then have "k + 1 \<le> - 1022" by simp
  then have "(2::real) powi (k + 1) \<le> 2 powi (- 1022)" by (rule power_int_two_mono)
  moreover have "(2::real) powi k < 2 powi (k + 1)"
    using power_int_two_split[of "k + 1" k] by simp
  ultimately have s: "\<bar>(2::real) powi k\<bar> < 2 powi (- 1022)" by simp
  have ne: "(2::real) powi k \<noteq> 0" by simp
  have n: "0 \<le> k + 1074" using assms by simp
  have "(2::real) powi k = 2 powi (k + 1074) * 2 powi (- 1074)"
    using power_int_two_split[of k "k + 1074"] by simp
  also have "(2::real) powi (k + 1074) = of_int (2 ^ nat (k + 1074))"
    using n by (simp add: power_int_def)
  finally have "(2::real) powi k = of_int (2 ^ nat (k + 1074)) * ulp (2 powi k)"
    unfolding ulp_def binade_subnormal[OF ne s] by simp
  then show ?thesis unfolding representable_grid ..
qed

lemma representable_nat:
  assumes "k < 2 ^ 53"
  shows "representable (real k)"
proof (cases "k = 0")
  case True
  then show ?thesis by simp
next
  case False
  then have k1: "1 \<le> real k" by simp
  have x0: "real k \<noteq> 0" using False by simp
  from x0 show ?thesis
  proof (cases rule: binade_cases)
    case (normal e)
    have "(2::real) powi 0 < 2 powi (e + 1)" using k1 normal(3) by simp
    then have "0 < e + 1" by (rule power_int_two_less_cancel)
    then have e0: "0 \<le> e" by simp
    have "real k < 2 ^ 53" using assms by (metis of_nat_less_iff of_nat_numeral of_nat_power)
    then have "(2::real) powi e < 2 powi 53" using normal(2) by simp
    then have "e < 53" by (rule power_int_two_less_cancel)
    then have n: "0 \<le> 52 - e" by simp
    have "(1::real) = 2 powi (52 - e) * 2 powi (e - 52)"
      using power_int_two_split[of 0 "e - 52"] by simp
    also have "(2::real) powi (52 - e) = of_int (2 ^ nat (52 - e))"
      using n by (simp add: power_int_def)
    finally have "real k = of_int (int k * 2 ^ nat (52 - e)) * 2 powi (e - 52)"
      by (simp add: mult.assoc[symmetric])
    then have "real k = of_int (int k * 2 ^ nat (52 - e)) * ulp (real k)"
      unfolding ulp_def normal(4) .
    then show ?thesis unfolding representable_grid ..
  next
    case subnormal
    have "(2::real) powi (- 1022) \<le> 2 powi 0" by (rule power_int_two_mono) simp
    then show ?thesis using subnormal(1) k1 by simp
  qed
qed

lemma binade_le:
  assumes "x \<noteq> 0" and "\<bar>x\<bar> < 2 powi (k + 1)" and "- 1022 \<le> k"
  shows "binade x \<le> k"
proof -
  have "2 powi \<lfloor>log 2 \<bar>x\<bar>\<rfloor> < (2::real) powi (k + 1)"
    using floor_log2_bounds(1)[OF assms(1)] assms(2) by linarith
  then have "\<lfloor>log 2 \<bar>x\<bar>\<rfloor> < k + 1" by (rule power_int_two_less_cancel)
  then show ?thesis unfolding binade_def using assms(3) by simp
qed

subsection \<open>The square root of a rounded square\<close>

text \<open>For a double \<open>s\<close> whose square neither underflows nor overflows, rounding \<open>s * s\<close>,
  taking the square root and rounding again gives \<open>s\<close> back: the error of the first
  rounding moves the square root by less than half a unit in the last place of \<open>s\<close>.\<close>

lemma power_int_two_add: "(2::real) powi a * 2 powi b = 2 powi (a + b)"
  by (simp add: power_int_add)

lemma power_int_two_double: "(2::real) powi a * 2 powi a = 2 powi (2 * a)"
  unfolding mult_2 by (rule power_int_two_add)

lemma representable_mantissa:
  assumes "representable s" and "2 powi e \<le> s" and "s < 2 powi (e + 1)" and "- 1022 \<le> e"
  obtains m :: int where "s = of_int m * 2 powi (e - 52)" "2 ^ 52 \<le> m" "m < 2 ^ 53"
proof -
  define u :: real where "u = 2 powi (e - 52)"
  have u: "0 < u" unfolding u_def by simp
  have sp: "0 < s" using assms(2) by (rule less_le_trans[rotated]) simp
  have a: "2 powi e \<le> \<bar>s\<bar>" "\<bar>s\<bar> < 2 powi (e + 1)" using assms(2,3) sp by simp_all
  have us: "ulp s = u" unfolding ulp_def binade_normal[OF a assms(4)] u_def ..
  obtain m :: int where m: "s = of_int m * u"
    using assms(1) unfolding representable_grid us by blast
  have e0: "(2::real) powi e = 2 ^ 52 * u"
    unfolding u_def using power_int_two_split[of e "e - 52"] by simp
  have e1: "(2::real) powi (e + 1) = 2 ^ 53 * u"
    unfolding u_def using power_int_two_split[of "e + 1" "e - 52"] by simp
  have "2 ^ 52 * u \<le> of_int m * u" using assms(2) unfolding e0 m .
  then have "real_of_int (2 ^ 52) \<le> of_int m" using u by simp
  then have lo: "2 ^ 52 \<le> m" by (simp only: of_int_le_iff)
  have "of_int m * u < 2 ^ 53 * u" using assms(3) unfolding e1 m .
  then have "real_of_int m < of_int (2 ^ 53)" using u by simp
  then have hi: "m < 2 ^ 53" by (simp only: of_int_less_iff)
  show ?thesis using that[OF m[unfolded u_def] lo hi] .
qed

lemma sqrt_square_round:
  assumes "representable s" and "2 powi (- 511) \<le> s" and "s < 2 powi 511"
  shows "rn_real (sqrt (rn_real (s * s))) = s"
proof -
  have sp: "0 < s" using assms(2) by (rule less_le_trans[rotated]) simp
  then have s0: "s \<noteq> 0" by simp
  from s0 show ?thesis
  proof (cases rule: binade_cases)
    case subnormal
    have "(2::real) powi (- 1022) \<le> 2 powi (- 511)" by (rule power_int_two_mono) simp
    then show ?thesis using subnormal(1) assms(2) sp by simp
  next
    case (normal e)
    have n2: "2 powi e \<le> s" and n3: "s < 2 powi (e + 1)" using normal(2,3) sp by simp_all
    have "(2::real) powi (- 511) < 2 powi (e + 1)" using assms(2) n3 by linarith
    then have "- 511 < e + 1" by (rule power_int_two_less_cancel)
    then have elo: "- 511 \<le> e" by simp
    have "(2::real) powi e < 2 powi 511" using assms(3) n2 by linarith
    then have ehi: "e < 511" by (rule power_int_two_less_cancel)
    define u :: real where "u = 2 powi (e - 52)"
    have u: "0 < u" unfolding u_def by simp
    obtain m :: int where m: "s = of_int m * u" "2 ^ 52 \<le> m" "m < 2 ^ 53"
      using representable_mantissa[OF assms(1) n2 n3 normal(1)] unfolding u_def by blast
    have e0: "(2::real) powi e = 2 ^ 52 * u"
      unfolding u_def using power_int_two_split[of e "e - 52"] by simp
    have e1: "(2::real) powi (e + 1) = 2 ^ 53 * u"
      unfolding u_def using power_int_two_split[of "e + 1" "e - 52"] by simp
    have rs: "rn_real s = s" using assms(1) by (rule rn_real_representable)
    show ?thesis
    proof (cases "m = 2 ^ 52")
      case True
      have s: "s = 2 powi e" unfolding m(1) True e0 by simp
      have "s * s = 2 powi (2 * e)" unfolding s by (rule power_int_two_double)
      moreover have "representable ((2::real) powi (2 * e))"
        using elo by (intro representable_pow2) simp
      ultimately have "rn_real (s * s) = s * s" by (simp add: rn_real_representable)
      moreover have "sqrt (s * s) = s" using sp by simp
      ultimately show ?thesis using rs by simp
    next
      case False
      then have "2 ^ 52 + 1 \<le> m" using m(2) by simp
      then have "real_of_int (2 ^ 52 + 1) \<le> of_int m" by (simp only: of_int_le_iff)
      then have "(2 ^ 52 + 1) * u \<le> of_int m * u" using u by simp
      then have slo: "2 powi e + u \<le> s" unfolding m(1) e0 by (simp add: algebra_simps)
      have "m \<le> 2 ^ 53 - 1" using m(3) by simp
      then have "real_of_int m \<le> of_int (2 ^ 53 - 1)" by (simp only: of_int_le_iff)
      then have "of_int m * u \<le> (2 ^ 53 - 1) * u" using u by simp
      then have shi: "s + u \<le> 2 powi (e + 1)" unfolding m(1) e1 by (simp add: algebra_simps)
      define q where "q = rn_real (s * s)"
      have ss0: "s * s \<noteq> 0" using sp by simp
      have "s * s < 2 powi (e + 1) * 2 powi (e + 1)"
        using n3 sp by (intro mult_strict_mono) simp_all
      also have "(2::real) powi (e + 1) * 2 powi (e + 1) = 2 powi (2 * e + 1 + 1)"
      proof -
        have d: "2 * (e + 1) = 2 * e + 1 + 1" by simp
        show ?thesis using power_int_two_double[of "e + 1"] unfolding d .
      qed
      finally have "\<bar>s * s\<bar> < 2 powi (2 * e + 1 + 1)" using sp by simp
      then have "binade (s * s) \<le> 2 * e + 1"
        using ss0 elo by (intro binade_le) simp_all
      then have "binade (s * s) - 52 \<le> 2 * e + 1 - 52" by simp
      then have "ulp (s * s) \<le> 2 powi (2 * e + 1 - 52)"
        unfolding ulp_def by (rule power_int_two_mono)
      also have "(2::real) powi (2 * e + 1 - 52) = 2 * (2 powi e * u)"
      proof -
        have d: "e + (e - 52) = 2 * e - 52" by simp
        have "(2::real) powi e * u = 2 powi (2 * e - 52)"
          unfolding u_def using power_int_two_add[of e "e - 52"] unfolding d .
        moreover have "(2::real) powi (2 * e + 1 - 52) = 2 * 2 powi (2 * e - 52)"
          using power_int_two_split[of "2 * e + 1 - 52" "2 * e - 52"] by simp
        ultimately show ?thesis by simp
      qed
      finally have "ulp (s * s) / 2 \<le> 2 powi e * u" by simp
      then have err: "\<bar>q - s * s\<bar> \<le> 2 powi e * u"
        unfolding q_def using rn_real_error[of "s * s"] by linarith
      have "2 powi e * u \<le> (s - u) * u"
        using slo u by (intro mult_right_mono) simp_all
      then have err2: "\<bar>q - s * s\<bar> \<le> (s - u) * u" using err by linarith
      have uu: "0 < u * u" using u by simp
      have lower: "(s - u / 2)\<^sup>2 < q"
      proof -
        have "(s - u / 2)\<^sup>2 = s * s - (s - u) * u - 3 / 4 * (u * u)"
          by (simp add: power2_eq_square algebra_simps)
        then show ?thesis using err2 uu by (simp add: abs_le_iff)
      qed
      have upper: "q < (s + u / 2)\<^sup>2"
      proof -
        have "(s + u / 2)\<^sup>2 = s * s + (s - u) * u + 5 / 4 * (u * u)"
          by (simp add: power2_eq_square algebra_simps)
        then show ?thesis using err2 uu by (simp add: abs_le_iff)
      qed
      have l: "s - u / 2 < sqrt q" using lower by (rule real_less_rsqrt)
      have "0 \<le> s + u / 2" using sp u by simp
      then have r: "sqrt q < s + u / 2" using upper by (intro real_less_lsqrt) simp_all
      have "(0::real) < 2 powi e" by simp
      then have qp: "0 < sqrt q" using l slo u by linarith
      have a: "2 powi e \<le> \<bar>sqrt q\<bar>" using l slo u qp by simp
      have b: "\<bar>sqrt q\<bar> < 2 powi (e + 1)" using r shi u qp by simp
      have "\<bar>sqrt q - of_int m * u\<bar> < 1 / 2 * u" using l r unfolding m(1) by linarith
      moreover have "\<bar>sqrt q - of_int m * u\<bar> = \<bar>sqrt q / u - of_int m\<bar> * u"
      proof -
        have "sqrt q - of_int m * u = (sqrt q / u - of_int m) * u"
          using u by (simp add: left_diff_distrib)
        then show ?thesis using u by (simp add: abs_mult)
      qed
      ultimately have "\<bar>sqrt q / u - of_int m\<bar> < 1 / 2" using u by simp
      then have "round_half_even (sqrt q / u) = m" by (rule round_half_even_close)
      then have "rn_real (sqrt q) = s"
        unfolding rn_real_normal[OF a b normal(1)] u_def[symmetric] m(1) by simp
      then show ?thesis unfolding q_def .
    qed
  qed
qed

subsection \<open>Evaluating a rounding\<close>

lemma rn_zero [simp]: "rn 0 = Finite 0"
  by (simp add: rn_def)

lemma rn_representable:
  assumes "representable x" and "\<bar>x\<bar> < 2 powi 1024"
  shows "rn x = Finite x"
  unfolding rn_def rn_real_representable[OF assms(1)] using assms(2) by simp

lemma rn_finite:
  assumes "\<bar>x\<bar> < 2 powi k" and "k \<le> 1023" and "- 1022 \<le> k"
  shows "rn x = Finite (rn_real x)"
proof -
  have "\<bar>rn_real x\<bar> \<le> 2 powi k" using assms(1,3) by (rule rn_real_le_pow)
  moreover have "(2::real) powi k \<le> 2 powi 1023" using assms(2) by (rule power_int_two_mono)
  moreover have "(2::real) powi 1023 < 2 powi 1024" by simp
  ultimately show ?thesis unfolding rn_def by simp
qed

lemma rn_nat:
  assumes "k < 2 ^ 53"
  shows "rn (real k) = Finite (real k)"
proof -
  have "real k < 2 ^ 53" using assms by (metis of_nat_less_iff of_nat_numeral of_nat_power)
  then have "\<bar>real k\<bar> < 2 powi 1024" by simp
  with representable_nat[OF assms] show ?thesis by (rule rn_representable)
qed

lemma double_of_size_t_small: "k < 2 ^ 53 \<Longrightarrow> double_of_size_t k = Finite (real k)"
  unfolding double_of_size_t_def by (rule rn_nat)

lemma fadd_commute: "fadd a b = fadd b a"
  by (cases a; cases b) (simp_all add: add.commute)

lemma fmul_commute: "fmul a b = fmul b a"
  by (cases a; cases b) (simp_all add: mult.commute)

lemma rn_eval:
  assumes "2 powi e \<le> \<bar>x\<bar>" and "\<bar>x\<bar> < 2 powi (e + 1)" and "- 1022 \<le> e" and "e \<le> 1022"
  shows "rn x = Finite (of_int (round_half_even (x / 2 powi (e - 52))) * 2 powi (e - 52))"
proof -
  have "\<bar>rn_real x\<bar> \<le> 2 powi (e + 1)" using assms(1-3) by (rule rn_real_binade_bounds)
  moreover have "(2::real) powi (e + 1) \<le> 2 powi 1023"
    using assms(4) by (intro power_int_two_mono) simp
  moreover have "(2::real) powi 1023 < 2 powi 1024" by simp
  ultimately have "\<not> 2 powi 1024 \<le> \<bar>rn_real x\<bar>" by linarith
  then show ?thesis unfolding rn_def rn_real_normal[OF assms(1-3)] by simp
qed

lemma rn_eval_close:
  assumes "2 powi e \<le> \<bar>x\<bar>" and "\<bar>x\<bar> < 2 powi (e + 1)" and "- 1022 \<le> e" and "e \<le> 1022"
    and "\<bar>x / 2 powi (e - 52) - of_int k\<bar> < 1 / 2"
  shows "rn x = Finite (of_int k * 2 powi (e - 52))"
  unfolding rn_eval[OF assms(1-4)] round_half_even_close[OF assms(5)] ..

lemma close_from_bounds:
  assumes "(of_int k - 1 / 2) * u < q" and "q < (of_int k + 1 / 2) * u" and "0 < (u::real)"
  shows "\<bar>q / u - of_int k\<bar> < 1 / 2"
proof -
  have "of_int k - 1 / 2 < q / u" using assms(1,3) by (simp add: pos_less_divide_eq)
  moreover have "q / u < of_int k + 1 / 2" using assms(2,3) by (simp add: pos_divide_less_eq)
  ultimately show ?thesis by linarith
qed

lemma double_of_size_t_two: "double_of_size_t (Suc (Suc 0)) = Finite 2"
  using double_of_size_t_small[of "Suc (Suc 0)"] by simp


lemma rn_pow2:
  assumes "- 1074 \<le> k" and "k \<le> 1023"
  shows "rn (2 powi k) = Finite (2 powi k)"
proof -
  have "(2::real) powi k \<le> 2 powi 1023" using assms(2) by (rule power_int_two_mono)
  moreover have "(2::real) powi 1023 < 2 powi 1024" by simp
  ultimately have "\<bar>(2::real) powi k\<bar> < 2 powi 1024" by simp
  with representable_pow2[OF assms(1)] show ?thesis by (rule rn_representable)
qed

lemma rn_overflow:
  assumes "2 powi 1024 \<le> x"
  shows "rn x = PosInf"
proof -
  have p: "(0::real) < 2 powi 1024" by simp
  then have x: "0 < x" using assms by linarith
  then have "2 powi 1024 \<le> \<bar>x\<bar>" using assms by simp
  then have "2 powi 1024 \<le> \<bar>rn_real x\<bar>" by (rule rn_real_ge_pow) simp
  then show ?thesis unfolding rn_def using x by simp
qed

lemma rn_underflow:
  assumes "\<bar>x\<bar> < 2 powi (- 1075)"
  shows "rn x = Finite 0"
proof -
  have h: "(2::real) powi (- 1074) = 2 * 2 powi (- 1075)"
    using power_int_two_split[of "- 1074" "- 1075"] by simp
  have "(2::real) powi (- 1075) \<le> 2 powi (- 1022)" by (rule power_int_two_mono) simp
  then have s: "\<bar>x\<bar> < 2 powi (- 1022)" using assms by linarith
  have "\<bar>x\<bar> / 2 powi (- 1074) < 1 / 2"
    using assms unfolding h by (simp add: divide_simps)
  then have "\<bar>x / 2 powi (- 1074) - of_int 0\<bar> < 1 / 2" by simp
  then have "round_half_even (x / 2 powi (- 1074)) = 0" by (rule round_half_even_close)
  then have "rn_real x = 0" unfolding rn_real_subnormal[OF s] by simp
  then show ?thesis unfolding rn_def by simp
qed

lemma rn_minus: "rn (- x) = fneg (rn x)"
proof (cases "x = 0")
  case True
  then show ?thesis by simp
next
  case False
  then show ?thesis unfolding rn_def rn_real_minus by auto
qed

lemma rn_half [simp]: "rn (1 / 2) = Finite (1 / 2)"
  using rn_pow2[of "- 1"] by simp



lemma rn_not_NaN [simp]: "rn x \<noteq> NaN"
  by (simp add: rn_def)

lemma rn_numeral:
  assumes "(numeral k :: nat) < 2 ^ 53"
  shows "rn (numeral k) = Finite (numeral k)"
  using rn_nat[OF assms] by simp

lemma rn_one [simp]: "rn 1 = Finite 1"
  using rn_nat[of 1] by simp

section \<open>StatisticalAnalyzer in binary64\<close>

subsection \<open>Standard deviation\<close>

lemma rn_nonneg:
  assumes "0 \<le> x"
  shows "fle (Finite 0) (rn x)"
proof (cases "x = 0")
  case True
  then show ?thesis by simp
next
  case False
  then have "0 < x" using assms by simp
  then show ?thesis unfolding rn_def using rn_real_nonneg[OF assms] by simp
qed

lemma fle_zero_cases:
  assumes "fle (Finite 0) d"
  obtains r where "d = Finite r" "0 \<le> r" | "d = PosInf"
  using assms by (cases d) simp_all

lemma fadd_nonneg:
  assumes "fle (Finite 0) a" and "fle (Finite 0) b"
  shows "fle (Finite 0) (fadd a b)"
proof -
  from assms(1) show ?thesis
  proof (cases rule: fle_zero_cases)
    case (1 r)
    from assms(2) show ?thesis
    proof (cases rule: fle_zero_cases)
      case (1 t)
      show ?thesis unfolding \<open>a = Finite r\<close> \<open>b = Finite t\<close> fadd.simps
        using \<open>0 \<le> r\<close> \<open>0 \<le> t\<close> by (intro rn_nonneg) simp
    next
      case 2
      then show ?thesis using \<open>a = Finite r\<close> by simp
    qed
  next
    case 2
    from assms(2) show ?thesis
      by (cases rule: fle_zero_cases) (simp_all add: 2)
  qed
qed

lemma fmul_self_nonneg: "d \<noteq> NaN \<Longrightarrow> fle (Finite 0) (fmul d d)"
  by (cases d) (simp_all add: rn_nonneg)

lemma fsub_finite_not_NaN: "m \<noteq> NaN \<Longrightarrow> fsub (Finite a) m \<noteq> NaN"
  by (cases m) (simp_all add: fsub_def)

lemma fadd_finite_not_NaN: "acc \<noteq> NaN \<Longrightarrow> fadd acc (Finite r) \<noteq> NaN"
  by (cases acc) simp_all

lemma sum_not_NaN:
  assumes "\<forall>d\<in>set data. \<exists>r. d = Finite r" and "acc \<noteq> NaN"
  shows "foldl fadd acc data \<noteq> NaN"
  using assms
proof (induction data arbitrary: acc)
  case Nil
  then show ?case by simp
next
  case (Cons d data)
  obtain r where r: "d = Finite r" using Cons.prems(1) by auto
  have "fadd acc d \<noteq> NaN" unfolding r using Cons.prems(2) by (rule fadd_finite_not_NaN)
  then show ?case using Cons.IH Cons.prems(1) by simp
qed

lemma double_of_size_t_pos:
  assumes "1 \<le> n" and "n \<le> 2 ^ 64"
  obtains p where "double_of_size_t n = Finite p" "1 \<le> p"
proof -
  have "real n \<le> 2 ^ 64" using assms(2) by (metis of_nat_le_iff of_nat_numeral of_nat_power)
  then have "\<bar>real n\<bar> < 2 powi 65" by simp
  then have f: "rn (real n) = Finite (rn_real (real n))" by (rule rn_finite) simp_all
  have "2 powi 0 \<le> \<bar>real n\<bar>" using assms(1) by simp
  then have "2 powi 0 \<le> \<bar>rn_real (real n)\<bar>" by (rule rn_real_ge_pow) simp
  moreover have "0 \<le> rn_real (real n)" by (rule rn_real_nonneg) simp
  ultimately have "1 \<le> rn_real (real n)" by simp
  then show ?thesis using that f unfolding double_of_size_t_def by blast
qed

lemma fdiv_not_NaN: "a \<noteq> NaN \<Longrightarrow> p \<noteq> 0 \<Longrightarrow> fdiv a (Finite p) \<noteq> NaN"
  by (cases a) simp_all

lemma fdiv_nonneg:
  assumes "fle (Finite 0) a" and "0 < p"
  shows "fle (Finite 0) (fdiv a (Finite p))"
  using assms(1)
proof (cases rule: fle_zero_cases)
  case (1 r)
  have "0 \<le> r / p" using 1(2) assms(2) by simp
  then show ?thesis unfolding 1(1) using assms(2) by (simp add: rn_nonneg)
next
  case 2
  then show ?thesis using assms(2) by simp
qed

lemma fsqrt_nonneg:
  assumes "fle (Finite 0) a"
  shows "fle (Finite 0) (fsqrt a)"
  using assms
proof (cases rule: fle_zero_cases)
  case (1 r)
  then show ?thesis by (simp add: rn_nonneg)
next
  case 2
  then show ?thesis by simp
qed

lemma calculate_mean_b64_not_NaN:
  assumes "\<forall>d\<in>set data. \<exists>r. d = Finite r" and "length data \<le> 2 ^ 64"
  shows "calculate_mean_b64 data \<noteq> NaN"
proof (cases "data = []")
  case True
  then show ?thesis by (simp add: calculate_mean_b64_def)
next
  case False
  then have "1 \<le> length data" by (cases data) simp_all
  then obtain p where p: "double_of_size_t (length data) = Finite p" "1 \<le> p"
    using assms(2) by (rule double_of_size_t_pos)
  have "foldl fadd (Finite 0) data \<noteq> NaN" using assms(1) by (rule sum_not_NaN) simp
  then have "fdiv (foldl fadd (Finite 0) data) (Finite p) \<noteq> NaN"
    using p(2) by (intro fdiv_not_NaN) simp_all
  then show ?thesis using False by (simp add: calculate_mean_b64_def p(1))
qed

lemma sq_sum_nonneg:
  assumes "\<forall>d\<in>set data. \<exists>r. d = Finite r" and "m \<noteq> NaN" and "fle (Finite 0) acc"
  shows "fle (Finite 0) (foldl (\<lambda>s val. fadd s (fmul (fsub val m) (fsub val m))) acc data)"
  using assms
proof (induction data arbitrary: acc)
  case Nil
  then show ?case by simp
next
  case (Cons d data)
  obtain r where r: "d = Finite r" using Cons.prems(1) by auto
  have "fsub d m \<noteq> NaN" unfolding r using Cons.prems(2) by (rule fsub_finite_not_NaN)
  then have "fle (Finite 0) (fmul (fsub d m) (fsub d m))" by (rule fmul_self_nonneg)
  with Cons.prems(3) have "fle (Finite 0) (fadd acc (fmul (fsub d m) (fsub d m)))"
    by (rule fadd_nonneg)
  then show ?case using Cons.IH Cons.prems(1,2) by simp
qed

lemma calculate_std_dev_b64_nonneg:
  assumes "\<forall>d\<in>set data. \<exists>r. d = Finite r" and "length data \<le> 2 ^ 64"
  shows "fle (Finite 0) (calculate_std_dev_b64 data)"
proof (cases "length data < 2")
  case True
  then show ?thesis by (simp add: calculate_std_dev_b64_def)
next
  case False
  then have "1 \<le> length data - 1" by simp
  moreover have "length data - 1 \<le> 2 ^ 64" using assms(2) by simp
  ultimately obtain p where p: "double_of_size_t (length data - 1) = Finite p" "1 \<le> p"
    by (rule double_of_size_t_pos)
  define m where "m = calculate_mean_b64 data"
  have m: "m \<noteq> NaN" unfolding m_def using assms by (rule calculate_mean_b64_not_NaN)
  have "fle (Finite 0) (foldl (\<lambda>s val. fadd s (fmul (fsub val m) (fsub val m))) (Finite 0) data)"
    using assms(1) m by (rule sq_sum_nonneg) simp
  then have "fle (Finite 0)
      (fdiv (foldl (\<lambda>s val. fadd s (fmul (fsub val m) (fsub val m))) (Finite 0) data) (Finite p))"
    using p(2) by (intro fdiv_nonneg) simp_all
  then have "fle (Finite 0) (fsqrt
      (fdiv (foldl (\<lambda>s val. fadd s (fmul (fsub val m) (fsub val m))) (Finite 0) data) (Finite p)))"
    by (rule fsqrt_nonneg)
  then show ?thesis
    unfolding calculate_std_dev_b64_def Let_def m_def[symmetric] p(1) using False by simp
qed

text \<open>The values have to be finite: on two infinities the mean is \<open>+\<infinity>\<close>, each
  deviation is \<open>\<infinity> - \<infinity>\<close>, and the result is NaN, which is not \<open>\<ge> 0\<close>.\<close>

lemma calculate_std_dev_b64_infinities:
  "calculate_std_dev_b64 [PosInf, PosInf] = NaN \<and>
   \<not> fle (Finite 0) (calculate_std_dev_b64 [PosInf, PosInf])"
  by (simp add: calculate_std_dev_b64_def calculate_mean_b64_def fsub_def
      double_of_size_t_two Let_def)

lemma sq_sum_constant:
  assumes "\<forall>d\<in>set data. d = Finite c"
  shows "foldl (\<lambda>s val. fadd s (fmul (fsub val (Finite c)) (fsub val (Finite c)))) (Finite 0) data
           = Finite 0"
  using assms by (induction data) (simp_all add: fsub_def)

lemma fdiv_zero_size:
  assumes "1 \<le> n"
  shows "fdiv (Finite 0) (double_of_size_t n) = Finite 0"
proof (cases "rn (real n)")
  case (Finite p)
  have "2 powi 0 \<le> \<bar>real n\<bar>" using assms by simp
  then have "2 powi 0 \<le> \<bar>rn_real (real n)\<bar>" by (rule rn_real_ge_pow) simp
  then have "rn_real (real n) \<noteq> 0" by auto
  moreover have "p = rn_real (real n)" using Finite unfolding rn_def by (simp split: if_splits)
  ultimately show ?thesis unfolding double_of_size_t_def Finite by simp
next
  case PosInf
  then show ?thesis unfolding double_of_size_t_def by simp
next
  case NegInf
  then show ?thesis unfolding rn_def using assms by (simp split: if_splits)
next
  case NaN
  then show ?thesis by simp
qed

lemma calculate_std_dev_b64_constant:
  assumes "\<forall>d\<in>set data. d = Finite c" and "calculate_mean_b64 data = Finite c"
  shows "calculate_std_dev_b64 data = Finite 0"
proof (cases "length data < 2")
  case True
  then show ?thesis by (simp add: calculate_std_dev_b64_def)
next
  case False
  then have n: "1 \<le> length data - 1" by simp
  show ?thesis
    unfolding calculate_std_dev_b64_def Let_def assms(2) sq_sum_constant[OF assms(1)]
      fdiv_zero_size[OF n] using False by simp
qed

lemma mean_b64_eq: "mean_b64 vs = calculate_mean_b64 vs"
  unfolding mean_b64_def calculate_mean_b64_def ..

lemma std_dev_b64_eq: "std_dev_b64 vs = calculate_std_dev_b64 vs"
  unfolding std_dev_b64_def calculate_std_dev_b64_def mean_b64_eq ..

lemma coefficient_of_variation_b64_constant:
  assumes "\<forall>d\<in>set vs. d = Finite c" and "calculate_mean_b64 vs = Finite c"
  shows "coefficient_of_variation_b64 vs = Finite 0"
  unfolding coefficient_of_variation_b64_def Let_def mean_b64_eq std_dev_b64_eq assms(2)
    calculate_std_dev_b64_constant[OF assms] by simp

text \<open>
  Claim C7, as the code has it in binary64. \<open>calculate_std_dev\<close> returns \<open>0.0\<close> for fewer
  than two points. On finite values it never returns a negative number or a NaN (it
  returns a finite non-negative number or \<open>+\<infinity>\<close>). On a constant sequence it returns
  \<open>0.0\<close>, and so does \<open>coefficient_of_variation\<close>, when the mean the code computes is the
  element itself.
\<close>

theorem calculate_std_dev_b64_properties:
  "(length data < 2 \<longrightarrow> calculate_std_dev_b64 data = Finite 0) \<and>
   ((\<forall>d\<in>set data. \<exists>r. d = Finite r) \<and> length data \<le> 2 ^ 64 \<longrightarrow>
      fle (Finite 0) (calculate_std_dev_b64 data)) \<and>
   ((\<forall>d\<in>set data. d = Finite c) \<and> calculate_mean_b64 data = Finite c \<longrightarrow>
      calculate_std_dev_b64 data = Finite 0 \<and> coefficient_of_variation_b64 data = Finite 0)"
proof (intro conjI impI)
  assume "length data < 2"
  then show "calculate_std_dev_b64 data = Finite 0" by (simp add: calculate_std_dev_b64_def)
next
  assume "(\<forall>d\<in>set data. \<exists>r. d = Finite r) \<and> length data \<le> 2 ^ 64"
  then show "fle (Finite 0) (calculate_std_dev_b64 data)"
    using calculate_std_dev_b64_nonneg by blast
next
  assume a: "(\<forall>d\<in>set data. d = Finite c) \<and> calculate_mean_b64 data = Finite c"
  then show "calculate_std_dev_b64 data = Finite 0"
    using calculate_std_dev_b64_constant by blast
  from a show "coefficient_of_variation_b64 data = Finite 0"
    using coefficient_of_variation_b64_constant by blast
qed

lemma mean_of_threes:
  "calculate_mean_b64 [Finite 3, Finite 3, Finite 3] = Finite 3"
proof -
  have "double_of_size_t (Suc (Suc (Suc 0))) = Finite 3"
    using double_of_size_t_small[of "Suc (Suc (Suc 0))"] by simp
  then show ?thesis
    by (simp add: calculate_mean_b64_def rn_numeral)
qed

theorem calculate_std_dev_b64_properties_witness:
  "length [Finite 3] < 2 \<and> calculate_std_dev_b64 [Finite 3] = Finite 0 \<and>
   set [Finite 3, Finite 3, Finite 3] = {Finite 3} \<and>
   length [Finite 3, Finite 3, Finite 3] \<le> 2 ^ 64 \<and>
   calculate_mean_b64 [Finite 3, Finite 3, Finite 3] = Finite 3 \<and>
   fle (Finite 0) (calculate_std_dev_b64 [Finite 3, Finite 3, Finite 3]) \<and>
   calculate_std_dev_b64 [Finite 3, Finite 3, Finite 3] = Finite 0 \<and>
   coefficient_of_variation_b64 [Finite 3, Finite 3, Finite 3] = Finite 0"
proof -
  have a: "length [Finite 3] < 2" by simp
  have b: "\<forall>d\<in>set [Finite 3, Finite 3, Finite 3]. \<exists>r. d = Finite r" by simp
  have c: "length [Finite 3, Finite 3, Finite 3] \<le> 2 ^ 64" by simp
  have d: "\<forall>d\<in>set [Finite 3, Finite 3, Finite 3]. d = Finite 3" by simp
  note k1 = calculate_std_dev_b64_properties[of "[Finite 3]" 3]
  note k3 = calculate_std_dev_b64_properties[of "[Finite 3, Finite 3, Finite 3]" 3]
  have "calculate_std_dev_b64 [Finite 3] = Finite 0" using k1 a by blast
  moreover have "fle (Finite 0) (calculate_std_dev_b64 [Finite 3, Finite 3, Finite 3])"
    using k3 b c by blast
  moreover have "calculate_std_dev_b64 [Finite 3, Finite 3, Finite 3] = Finite 0"
    using k3 d mean_of_threes by blast
  moreover have "coefficient_of_variation_b64 [Finite 3, Finite 3, Finite 3] = Finite 0"
    using k3 d mean_of_threes by blast
  moreover have "set [Finite 3, Finite 3, Finite 3] = {Finite 3}" by simp
  ultimately show ?thesis using a c mean_of_threes by (intro conjI)
qed

subsection \<open>Standard deviation of three copies of 0.1\<close>

lemma one_tenth_representable: "representable (3602879701896397 / 2 ^ 55)"
proof -
  have a: "2 powi (- 4) \<le> \<bar>3602879701896397 / 2 ^ 55 :: real\<bar>" by simp
  have b: "\<bar>3602879701896397 / 2 ^ 55 :: real\<bar> < 2 powi (- 4 + 1)" by simp
  have c: "- 1022 \<le> (- 4 :: int)" by simp
  have "(3602879701896397 / 2 ^ 55 :: real) = of_int 7205759403792794 * 2 powi (- 4 - 52)"
    by simp
  then have "(3602879701896397 / 2 ^ 55 :: real) =
      of_int 7205759403792794 * ulp (3602879701896397 / 2 ^ 55)"
    unfolding ulp_def binade_normal[OF a b c] .
  then show ?thesis unfolding representable_grid ..
qed

lemma sum_of_tenths:
  "foldl fadd (Finite 0) [one_tenth, one_tenth, one_tenth] = Finite (1351079888211149 / 2 ^ 52)"
proof -
  have s1: "fadd (Finite 0) one_tenth = one_tenth"
    unfolding one_tenth_def fadd.simps
    using rn_eval_close[of "- 4" "0 + 3602879701896397 / 2 ^ 55" 7205759403792794] by simp
  have s2: "fadd one_tenth one_tenth = Finite (3602879701896397 / 2 ^ 54)"
    unfolding one_tenth_def fadd.simps
    using rn_eval_close[of "- 3" "3602879701896397 / 2 ^ 55 + 3602879701896397 / 2 ^ 55"
        7205759403792794] by simp
  have s3: "fadd (Finite (3602879701896397 / 2 ^ 54)) one_tenth = Finite (1351079888211149 / 2 ^ 52)"
    unfolding one_tenth_def fadd.simps
    using rn_eval[of "- 2" "3602879701896397 / 2 ^ 54 + 3602879701896397 / 2 ^ 55"]
    by (simp add: round_half_even_def Let_def)
  show ?thesis unfolding foldl_Cons foldl_Nil s1 s2 s3 ..
qed

lemma mean_of_tenths:
  "calculate_mean_b64 [one_tenth, one_tenth, one_tenth] = Finite (7205759403792795 / 2 ^ 56)"
proof -
  have n: "double_of_size_t (length [one_tenth, one_tenth, one_tenth]) = Finite 3"
    using double_of_size_t_small[of "Suc (Suc (Suc 0))"] by simp
  have "fdiv (Finite (1351079888211149 / 2 ^ 52)) (Finite 3) = Finite (7205759403792795 / 2 ^ 56)"
    using rn_eval_close[of "- 4" "1351079888211149 / 2 ^ 52 / 3" 7205759403792795] by simp
  then show ?thesis unfolding calculate_mean_b64_def sum_of_tenths n by simp
qed

lemma sq_sum_of_tenths:
  "foldl (\<lambda>s val. fadd s (fmul (fsub val (Finite (7205759403792795 / 2 ^ 56)))
                               (fsub val (Finite (7205759403792795 / 2 ^ 56)))))
     (Finite 0) [one_tenth, one_tenth, one_tenth] = Finite (3 / 2 ^ 112)"
proof -
  have df: "fsub one_tenth (Finite (7205759403792795 / 2 ^ 56)) = Finite (- 1 / 2 ^ 56)"
    unfolding one_tenth_def fsub_def fneg.simps fadd.simps
    using rn_eval_close[of "- 56" "3602879701896397 / 2 ^ 55 + - (7205759403792795 / 2 ^ 56)"
        "- 4503599627370496"] by simp
  have sq: "fmul (Finite (- 1 / 2 ^ 56)) (Finite (- 1 / 2 ^ 56)) = Finite (1 / 2 ^ 112)"
    unfolding fmul.simps
    using rn_eval_close[of "- 112" "- 1 / 2 ^ 56 * (- 1 / 2 ^ 56)" 4503599627370496] by simp
  have q1: "fadd (Finite 0) (Finite (1 / 2 ^ 112)) = Finite (1 / 2 ^ 112)"
    unfolding fadd.simps
    using rn_eval_close[of "- 112" "0 + 1 / 2 ^ 112" 4503599627370496] by simp
  have q2: "fadd (Finite (1 / 2 ^ 112)) (Finite (1 / 2 ^ 112)) = Finite (1 / 2 ^ 111)"
    unfolding fadd.simps
    using rn_eval_close[of "- 111" "1 / 2 ^ 112 + 1 / 2 ^ 112" 4503599627370496] by simp
  have q3: "fadd (Finite (1 / 2 ^ 111)) (Finite (1 / 2 ^ 112)) = Finite (3 / 2 ^ 112)"
    unfolding fadd.simps
    using rn_eval_close[of "- 111" "1 / 2 ^ 111 + 1 / 2 ^ 112" 6755399441055744] by simp
  show ?thesis unfolding foldl_Cons foldl_Nil df sq q1 q2 q3 ..
qed

lemma sqrt_of_variance: "rn (sqrt (3 / 2 ^ 113)) = Finite (2757880273211543 / 2 ^ 107)"
proof -
  have l: "(of_int 5515760546423086 - 1 / 2) * 2 powi (- 56 - 52) < sqrt (3 / 2 ^ 113)"
    by (rule real_less_rsqrt) (simp add: power2_eq_square)
  have r: "sqrt (3 / 2 ^ 113) < (of_int 5515760546423086 + 1 / 2) * 2 powi (- 56 - 52)"
    by (rule real_less_lsqrt) (simp_all add: power2_eq_square)
  have a: "2 powi (- 56) \<le> \<bar>sqrt (3 / 2 ^ 113)\<bar>" using l by simp
  have b: "\<bar>sqrt (3 / 2 ^ 113)\<bar> < 2 powi (- 56 + 1)" using r by simp
  have c: "\<bar>sqrt (3 / 2 ^ 113) / 2 powi (- 56 - 52) - of_int 5515760546423086\<bar> < 1 / 2"
    using l r by (rule close_from_bounds) simp
  show ?thesis using rn_eval_close[OF a b _ _ c] by simp
qed

lemma std_dev_of_tenths:
  "calculate_std_dev_b64 [one_tenth, one_tenth, one_tenth] = Finite (2757880273211543 / 2 ^ 107)"
proof -
  have n: "double_of_size_t (length [one_tenth, one_tenth, one_tenth] - 1) = Finite 2"
    using double_of_size_t_small[of "Suc (Suc 0)"] by simp
  have v: "fdiv (Finite (3 / 2 ^ 112)) (Finite 2) = Finite (3 / 2 ^ 113)"
    using rn_eval_close[of "- 112" "3 / 2 ^ 112 / 2" 6755399441055744] by simp
  have s: "fsqrt (Finite (3 / 2 ^ 113)) = Finite (2757880273211543 / 2 ^ 107)"
    using sqrt_of_variance by simp
  show ?thesis
    unfolding calculate_std_dev_b64_def Let_def mean_of_tenths sq_sum_of_tenths n v s by simp
qed

lemma cv_of_tenths:
  "coefficient_of_variation_b64 [one_tenth, one_tenth, one_tenth] =
     Finite (2693242454308147 / 2 ^ 97)"
proof -
  have q: "fdiv (Finite (2757880273211543 / 2 ^ 107)) (Finite (7205759403792795 / 2 ^ 56)) =
           Finite (861837585378607 / 2 ^ 102)"
    using rn_eval_close[of "- 53" "2757880273211543 / 2 ^ 107 / (7205759403792795 / 2 ^ 56)"
        6894700683028856] by simp
  have m: "fmul (Finite (861837585378607 / 2 ^ 102)) (Finite 100) = Finite (2693242454308147 / 2 ^ 97)"
    using rn_eval_close[of "- 46" "861837585378607 / 2 ^ 102 * 100" 5386484908616294] by simp
  show ?thesis
    unfolding coefficient_of_variation_b64_def Let_def mean_b64_eq std_dev_b64_eq
      mean_of_tenths std_dev_of_tenths q m by simp
qed

text \<open>
  Claim C7 as the specification states it: on a constant sequence \<open>calculate_std_dev\<close>
  and \<open>coefficient_of_variation\<close> return 0. The double nearest to \<open>0.1\<close> is
  \<open>3602879701896397 / 2^55\<close>. The sum of three copies of it is rounded, and the mean
  the code computes is the next double above the element; every deviation is
  \<open>- 2^-56\<close>, and both results are positive.
\<close>

theorem constant_sequence_std_dev_not_zero:
  "representable (3602879701896397 / 2 ^ 55) \<and>
   set [one_tenth, one_tenth, one_tenth] = {Finite (3602879701896397 / 2 ^ 55)} \<and>
   calculate_mean_b64 [one_tenth, one_tenth, one_tenth] = Finite (7205759403792795 / 2 ^ 56) \<and>
   calculate_std_dev_b64 [one_tenth, one_tenth, one_tenth] = Finite (2757880273211543 / 2 ^ 107) \<and>
   coefficient_of_variation_b64 [one_tenth, one_tenth, one_tenth] =
     Finite (2693242454308147 / 2 ^ 97)"
proof -
  have "set [one_tenth, one_tenth, one_tenth] = {Finite (3602879701896397 / 2 ^ 55)}"
    by (simp add: one_tenth_def)
  then show ?thesis
    using one_tenth_representable mean_of_tenths std_dev_of_tenths cv_of_tenths
    by (intro conjI)
qed

subsection \<open>Percentile 50 and the median\<close>









subsection \<open>Correlation\<close>

lemma correlation_fold_swap:
  "foldl (correlation_step_b64 y x my mx) (a, c, b) js =
     (case foldl (correlation_step_b64 x y mx my) (a, b, c) js of (n, p, q) \<Rightarrow> (n, q, p))"
proof (induction js arbitrary: a b c)
  case Nil
  then show ?case by simp
next
  case (Cons j js)
  define a' where "a' = fadd a (fmul (fsub (x ! j) mx) (fsub (y ! j) my))"
  define b' where "b' = fadd b (fmul (fsub (x ! j) mx) (fsub (x ! j) mx))"
  define c' where "c' = fadd c (fmul (fsub (y ! j) my) (fsub (y ! j) my))"
  have s1: "correlation_step_b64 y x my mx (a, c, b) j = (a', c', b')"
    unfolding a'_def b'_def c'_def
    by (simp add: correlation_step_b64_def Let_def
        fmul_commute[of "fsub (y ! j) my" "fsub (x ! j) mx"])
  have s2: "correlation_step_b64 x y mx my (a, b, c) j = (a', b', c')"
    unfolding a'_def b'_def c'_def by (simp add: correlation_step_b64_def Let_def)
  show ?case unfolding foldl_Cons s1 s2 by (rule Cons.IH)
qed

lemma calculate_correlation_b64_commute:
  "calculate_correlation_b64 x y = calculate_correlation_b64 y x"
proof (cases "length x = length y")
  case True
  obtain n p q where f: "foldl (correlation_step_b64 x y (calculate_mean_b64 x) (calculate_mean_b64 y))
      (Finite 0, Finite 0, Finite 0) [0..<length y] = (n, p, q)"
    by (metis prod_cases3)
  have g: "foldl (correlation_step_b64 y x (calculate_mean_b64 y) (calculate_mean_b64 x))
      (Finite 0, Finite 0, Finite 0) [0..<length y] = (n, q, p)"
    unfolding correlation_fold_swap[of y x _ _ _ _ _ "[0..<length y]"] f by simp
  show ?thesis
    unfolding calculate_correlation_b64_def Let_def True f g
    by (simp add: fmul_commute[of p q])
next
  case False
  then show ?thesis unfolding calculate_correlation_b64_def by auto
qed

lemma correlation_fold_self:
  "\<exists>t. foldl (correlation_step_b64 x x m m) (a, a, a) js = (t, t, t)"
proof (induction js arbitrary: a)
  case Nil
  then show ?case by simp
next
  case (Cons j js)
  define a' where "a' = fadd a (fmul (fsub (x ! j) m) (fsub (x ! j) m))"
  have "correlation_step_b64 x x m m (a, a, a) j = (a', a', a')"
    unfolding a'_def by (simp add: correlation_step_b64_def Let_def)
  then show ?case unfolding foldl_Cons using Cons.IH[of a'] by simp
qed

lemma fadd_Finite_representable:
  assumes "fadd a b = Finite s"
  shows "representable s"
proof (cases a)
  case (Finite u)
  show ?thesis
  proof (cases b)
    case (Finite v)
    have "rn (u + v) = Finite s" using assms unfolding \<open>a = Finite u\<close> Finite by simp
    then have "s = rn_real (u + v)" unfolding rn_def by (simp split: if_splits)
    then show ?thesis by (simp add: representable_rn_real)
  qed (use assms \<open>a = Finite u\<close> in simp_all)
qed (use assms in \<open>cases b; simp\<close>)+

lemma sum_sq_x_representable:
  assumes "1 \<le> length x" and "sum_sq_x_b64 x y = Finite s"
  shows "representable s"
proof -
  obtain k where k: "length x = Suc k" using assms(1) by (cases "length x") simp_all
  obtain n p q where f: "foldl (correlation_step_b64 x y (calculate_mean_b64 x) (calculate_mean_b64 y))
      (Finite 0, Finite 0, Finite 0) [0..<k] = (n, p, q)"
    by (metis prod_cases3)
  have "sum_sq_x_b64 x y =
      fadd p (fmul (fsub (x ! k) (calculate_mean_b64 x)) (fsub (x ! k) (calculate_mean_b64 x)))"
    unfolding sum_sq_x_b64_def k upt_Suc_append[OF le0] foldl_append f
    by (simp add: correlation_step_b64_def Let_def)
  then show ?thesis using assms(2) fadd_Finite_representable by metis
qed

lemma calculate_correlation_b64_self:
  assumes "2 \<le> length xs" and "sum_sq_x_b64 xs xs = Finite s"
    and "2 powi (- 511) \<le> s" and "s < 2 powi 511"
  shows "calculate_correlation_b64 xs xs = Finite 1"
proof -
  have rep: "representable s" using assms(1,2) by (intro sum_sq_x_representable[of xs xs]) simp_all
  obtain t where t: "foldl (correlation_step_b64 xs xs (calculate_mean_b64 xs) (calculate_mean_b64 xs))
      (Finite 0, Finite 0, Finite 0) [0..<length xs] = (t, t, t)"
    using correlation_fold_self by blast
  have ts: "t = Finite s" using assms(2) unfolding sum_sq_x_b64_def t by simp
  have sp: "0 < s" using assms(3) by (rule less_le_trans[rotated]) simp
  have "s * s < 2 powi 511 * 2 powi 511"
    using assms(4) sp by (intro mult_strict_mono) simp_all
  also have "(2::real) powi 511 * 2 powi 511 = 2 powi 1022"
    using power_int_two_double[of 511] by simp
  finally have "\<bar>s * s\<bar> < 2 powi 1022" using sp by simp
  then have m: "rn (s * s) = Finite (rn_real (s * s))" by (rule rn_finite) simp_all
  have q0: "0 \<le> rn_real (s * s)" using sp by (intro rn_real_nonneg) simp
  have "(2::real) powi 511 \<le> 2 powi 1024" by (rule power_int_two_mono) simp
  then have "\<bar>s\<bar> < 2 powi 1024" using assms(4) sp by simp
  with rep have rs: "rn s = Finite s" by (rule rn_representable)
  have "rn_real (sqrt (rn_real (s * s))) = s" using rep assms(3,4) by (rule sqrt_square_round)
  then have "rn (sqrt (rn_real (s * s))) = Finite s"
    unfolding rn_def using \<open>\<bar>s\<bar> < 2 powi 1024\<close> by simp
  then have d: "fsqrt (fmul (Finite s) (Finite s)) = Finite s"
    unfolding fmul.simps(1) m using q0 by simp
  have "calculate_correlation_b64 xs xs =
          (if feq (Finite s) (Finite 0) then Finite 0 else fdiv (Finite s) (Finite s))"
    unfolding calculate_correlation_b64_def Let_def t ts using assms(1)
    by (simp add: d del: fmul.simps fsqrt.simps fdiv.simps feq.simps)
  then show ?thesis using sp by simp
qed

text \<open>
  Claim C9, as the code has it in binary64. \<open>calculate_correlation\<close> returns the same
  double for \<open>(x, y)\<close> and for \<open>(y, x)\<close>. The correlation of a sequence of length at
  least 2 with itself is \<open>1.0\<close> when the sum of squared deviations the loop computes
  (\<open>sum_sq_x\<close>) is a finite number in \<open>[2^-511, 2^511)\<close>: its square then neither
  underflows nor overflows, and the rounded square root of the rounded square of a
  double is that double.
\<close>

theorem calculate_correlation_b64_symmetric_and_self:
  "calculate_correlation_b64 x y = calculate_correlation_b64 y x \<and>
   (2 \<le> length xs \<and> sum_sq_x_b64 xs xs = Finite s \<and> 2 powi (- 511) \<le> s \<and> s < 2 powi 511 \<longrightarrow>
      calculate_correlation_b64 xs xs = Finite 1)"
  using calculate_correlation_b64_commute calculate_correlation_b64_self by blast

lemma sum_sq_x_of_one_three:
  "sum_sq_x_b64 [Finite 1, Finite 3] [Finite 1, Finite 3] = Finite 2"
  by (simp add: sum_sq_x_b64_def calculate_mean_b64_def correlation_step_b64_def Let_def
      fsub_def rn_numeral rn_minus double_of_size_t_two)

theorem calculate_correlation_b64_symmetric_and_self_witness:
  "calculate_correlation_b64 [Finite 1, Finite 2, Finite 4] [Finite 2, Finite 1, Finite 3] =
     calculate_correlation_b64 [Finite 2, Finite 1, Finite 3] [Finite 1, Finite 2, Finite 4] \<and>
   2 \<le> length [Finite 1, Finite 3] \<and>
   sum_sq_x_b64 [Finite 1, Finite 3] [Finite 1, Finite 3] = Finite 2 \<and>
   2 powi (- 511) \<le> (2 :: real) \<and> (2 :: real) < 2 powi 511 \<and>
   calculate_correlation_b64 [Finite 1, Finite 3] [Finite 1, Finite 3] = Finite 1"
proof -
  have l: "2 \<le> length [Finite 1, Finite 3]" by simp
  have b: "2 powi (- 511) \<le> (2 :: real)" "(2 :: real) < 2 powi 511" by simp_all
  note k = calculate_correlation_b64_symmetric_and_self[of
      "[Finite 1, Finite 2, Finite 4]" "[Finite 2, Finite 1, Finite 3]" "[Finite 1, Finite 3]" 2]
  have "calculate_correlation_b64 [Finite 1, Finite 3] [Finite 1, Finite 3] = Finite 1"
    using k l sum_sq_x_of_one_three b by blast
  moreover have "calculate_correlation_b64 [Finite 1, Finite 2, Finite 4] [Finite 2, Finite 1, Finite 3] =
     calculate_correlation_b64 [Finite 2, Finite 1, Finite 3] [Finite 1, Finite 2, Finite 4]"
    using k by blast
  ultimately show ?thesis using l sum_sq_x_of_one_three b by (intro conjI)
qed

lemma calculate_correlation_b64_pair:
  assumes "calculate_mean_b64 [a, b] = m"
    and "fmul (fsub a m) (fsub a m) = p" and "fmul (fsub b m) (fsub b m) = q"
  shows "calculate_correlation_b64 [a, b] [a, b] =
           (if feq (fsqrt (fmul (fadd (fadd (Finite 0) p) q) (fadd (fadd (Finite 0) p) q))) (Finite 0)
            then Finite 0
            else fdiv (fadd (fadd (Finite 0) p) q)
                   (fsqrt (fmul (fadd (fadd (Finite 0) p) q) (fadd (fadd (Finite 0) p) q))))"
proof -
  have u: "[0..<length [a, b]] = [0, Suc 0]" by (simp add: upt_rec)
  have s0: "correlation_step_b64 [a, b] [a, b] m m (Finite 0, Finite 0, Finite 0) 0 =
              (fadd (Finite 0) p, fadd (Finite 0) p, fadd (Finite 0) p)"
    unfolding correlation_step_b64_def Let_def using assms(2) by simp
  have s1: "correlation_step_b64 [a, b] [a, b] m m
              (fadd (Finite 0) p, fadd (Finite 0) p, fadd (Finite 0) p) (Suc 0) =
              (fadd (fadd (Finite 0) p) q, fadd (fadd (Finite 0) p) q, fadd (fadd (Finite 0) p) q)"
    unfolding correlation_step_b64_def Let_def using assms(3) by simp
  show ?thesis
    unfolding calculate_correlation_b64_def Let_def assms(1) u foldl_Cons foldl_Nil s0 s1
    by simp
qed

lemma mean_of_zero_and:
  assumes "rn a = Finite a" and "rn (a / 2) = Finite h"
  shows "calculate_mean_b64 [Finite 0, Finite a] = Finite h"
  unfolding calculate_mean_b64_def using assms by (simp add: double_of_size_t_two)

text \<open>
  Claim C9 as the specification states it: the correlation of a sequence with two
  distinct values with itself is \<open>1.0\<close>. For \<open>[0, 2^-600]\<close> the squared deviations
  underflow to zero, the denominator is \<open>0.0\<close> and the function returns \<open>0.0\<close>. For
  \<open>[0, 2^600]\<close> the squared deviations overflow, numerator and denominator are both
  \<open>+\<infinity>\<close>, and the function returns NaN.
\<close>

theorem self_correlation_not_one:
  "representable (2 powi (- 600)) \<and> Finite 0 \<noteq> Finite (2 powi (- 600)) \<and>
   2 \<le> length [Finite 0, Finite (2 powi (- 600))] \<and>
   calculate_correlation_b64 [Finite 0, Finite (2 powi (- 600))]
     [Finite 0, Finite (2 powi (- 600))] = Finite 0 \<and>
   representable (2 powi 600) \<and> Finite 0 \<noteq> Finite (2 powi 600) \<and>
   calculate_correlation_b64 [Finite 0, Finite (2 powi 600)] [Finite 0, Finite (2 powi 600)] = NaN"
proof -
  define A :: real where "A = 2 powi (- 600)"
  define B :: real where "B = 2 powi (- 601)"
  define C :: real where "C = 2 powi 600"
  define D :: real where "D = 2 powi 599"
  have rA: "representable A" unfolding A_def by (rule representable_pow2) simp
  have rC: "representable C" unfolding C_def by (rule representable_pow2) simp
  have nA: "Finite 0 \<noteq> Finite A" unfolding A_def by simp
  have nC: "Finite 0 \<noteq> Finite C" unfolding C_def by simp
  have fA: "rn A = Finite A" unfolding A_def by (rule rn_pow2) simp_all
  have fB: "rn B = Finite B" unfolding B_def by (rule rn_pow2) simp_all
  have fC: "rn C = Finite C" unfolding C_def by (rule rn_pow2) simp_all
  have fD: "rn D = Finite D" unfolding D_def by (rule rn_pow2) simp_all
  have hA: "A / 2 = B" unfolding A_def B_def using power_int_two_split[of "- 600" "- 601"] by simp
  have hC: "C / 2 = D" unfolding C_def D_def using power_int_two_split[of 600 599] by simp
  have dA: "A + - B = B" using hA by simp
  have dC: "C + - D = D" using hC by simp
  have BB: "B * B = 2 powi (- 1202)" unfolding B_def using power_int_two_double[of "- 601"] by simp
  have DD: "D * D = 2 powi 1198" unfolding D_def using power_int_two_double[of 599] by simp
  have uf: "rn (2 powi (- 1202)) = Finite 0" by (rule rn_underflow) simp
  have ov: "rn (2 powi 1198) = PosInf" by (rule rn_overflow) simp
  have mA: "calculate_mean_b64 [Finite 0, Finite A] = Finite B"
    using fA by (rule mean_of_zero_and) (simp add: hA fB)
  have mC: "calculate_mean_b64 [Finite 0, Finite C] = Finite D"
    using fC by (rule mean_of_zero_and) (simp add: hC fD)
  have n0: "0 + - z = - z" "- z * - z = z * z" for z :: real by simp_all
  have mB: "rn (- B) = Finite (- B)" unfolding rn_minus fB by simp
  have mD: "rn (- D) = Finite (- D)" unfolding rn_minus fD by simp
  have p1: "fmul (fsub (Finite 0) (Finite B)) (fsub (Finite 0) (Finite B)) = Finite 0"
    unfolding fsub_def fneg.simps fadd.simps(1) n0 mB fmul.simps(1) BB uf by (rule refl)
  have p2: "fmul (fsub (Finite A) (Finite B)) (fsub (Finite A) (Finite B)) = Finite 0"
    unfolding fsub_def fneg.simps fadd.simps(1) dA fB fmul.simps(1) BB uf by (rule refl)
  have p3: "fmul (fsub (Finite 0) (Finite D)) (fsub (Finite 0) (Finite D)) = PosInf"
    unfolding fsub_def fneg.simps fadd.simps(1) n0 mD fmul.simps(1) DD ov by (rule refl)
  have p4: "fmul (fsub (Finite C) (Finite D)) (fsub (Finite C) (Finite D)) = PosInf"
    unfolding fsub_def fneg.simps fadd.simps(1) dC fD fmul.simps(1) DD ov by (rule refl)
  have cA: "calculate_correlation_b64 [Finite 0, Finite A] [Finite 0, Finite A] = Finite 0"
    unfolding calculate_correlation_b64_pair[OF mA p1 p2] by simp
  have cC: "calculate_correlation_b64 [Finite 0, Finite C] [Finite 0, Finite C] = NaN"
    unfolding calculate_correlation_b64_pair[OF mC p3 p4] by simp
  have l: "2 \<le> length [Finite 0, Finite A]" by simp
  show ?thesis using rA nA l cA rC nC cC unfolding A_def C_def by (intro conjI)
qed

section \<open>The record store\<close>

subsection \<open>\<open>std::map\<close> as a sorted association list\<close>

lemma map_modify_keys:
  "fst ` set (map_modify k d f m) = insert k (fst ` set m)"
proof (induction m)
  case Nil
  then show ?case by simp
next
  case (Cons e m)
  obtain k' v where e: "e = (k', v)" by (cases e)
  show ?case
    using Cons.IH by (cases "k = k'"; cases "k < k'") (simp_all add: e insert_commute)
qed

lemma map_modify_sorted:
  "sorted_wrt (<) (map fst m) \<Longrightarrow> sorted_wrt (<) (map fst (map_modify k d f m))"
proof (induction m)
  case Nil
  then show ?case by simp
next
  case (Cons e m)
  obtain k' v where e: "e = (k', v)" by (cases e)
  show ?case
  proof (cases "k = k'")
    case True
    then show ?thesis using Cons.prems e by simp
  next
    case False
    show ?thesis
    proof (cases "k < k'")
      case True
      then show ?thesis using Cons.prems e False by auto
    next
      case nl: False
      then have "k' < k" using False by simp
      moreover have "\<forall>x\<in>fst ` set m. k' < x" using Cons.prems e by simp
      ultimately have "\<forall>x\<in>fst ` set (map_modify k d f m). k' < x"
        unfolding map_modify_keys by simp
      moreover have "sorted_wrt (<) (map fst (map_modify k d f m))"
        using Cons.IH Cons.prems by simp
      ultimately show ?thesis using e False nl by simp
    qed
  qed
qed

lemma map_of_sorted_head:
  "sorted_wrt (<) (map fst ((k', v) # m)) \<Longrightarrow> (k :: 'k :: linorder) < k' \<Longrightarrow> map_of m k = None"
proof -
  assume a: "sorted_wrt (<) (map fst ((k', v) # m))" and b: "k < k'"
  have "\<forall>x\<in>fst ` set m. k' < x" using a by simp
  then have "k \<notin> fst ` set m" using b by auto
  then show ?thesis by (simp add: map_of_eq_None_iff)
qed

lemma map_of_map_modify:
  "sorted_wrt (<) (map fst m) \<Longrightarrow>
   map_of (map_modify k d f m) k' =
     (if k' = k then Some (f (case map_of m k of None \<Rightarrow> d | Some v \<Rightarrow> v)) else map_of m k')"
proof (induction m)
  case Nil
  then show ?case by simp
next
  case (Cons e m)
  obtain k1 v where e: "e = (k1, v)" by (cases e)
  have tl: "sorted_wrt (<) (map fst m)" using Cons.prems by simp
  show ?case
  proof (cases "k = k1")
    case True
    then show ?thesis using e by simp
  next
    case False
    show ?thesis
    proof (cases "k < k1")
      case True
      have "map_of m k = None" using Cons.prems True unfolding e by (rule map_of_sorted_head)
      then show ?thesis using e False True by simp
    next
      case nl: False
      then show ?thesis using e False Cons.IH[OF tl] by auto
    qed
  qed
qed

text \<open>Grouping a vector by a key, as both assignments in the loop of \<open>index_players\<close> do.\<close>

lemma group_fold_sorted:
  "sorted_wrt (<) (map fst m) \<Longrightarrow>
   sorted_wrt (<) (map fst (foldl (\<lambda>m p. map_modify (key p) [] (\<lambda>v. v @ [p]) m) m ps))"
  by (induction ps arbitrary: m) (simp_all add: map_modify_sorted)

lemma group_fold_keys:
  "fst ` set (foldl (\<lambda>m p. map_modify (key p) [] (\<lambda>v. v @ [p]) m) m ps) =
     fst ` set m \<union> key ` set ps"
  by (induction ps arbitrary: m) (simp_all add: map_modify_keys)

lemma group_fold_map_of:
  "sorted_wrt (<) (map fst m) \<Longrightarrow>
   map_of (foldl (\<lambda>m p. map_modify (key p) [] (\<lambda>v. v @ [p]) m) m ps) k =
     (case map_of m k of
        None \<Rightarrow> if filter (\<lambda>p. key p = k) ps = [] then None else Some (filter (\<lambda>p. key p = k) ps)
      | Some v \<Rightarrow> Some (v @ filter (\<lambda>p. key p = k) ps))"
proof (induction ps arbitrary: m)
  case Nil
  then show ?case by (simp split: option.splits)
next
  case (Cons p ps)
  have s: "sorted_wrt (<) (map fst (map_modify (key p) [] (\<lambda>v. v @ [p]) m))"
    using Cons.prems by (rule map_modify_sorted)
  show ?case
    using Cons.IH[OF s] by (simp add: map_of_map_modify[OF Cons.prems] split: option.splits)
qed

lemma index_players_fold:
  "foldl
       (\<lambda>pa' player.
          pa'\<lparr>players_by_name :=
                 map_modify (player_name player) [] (\<lambda>v. v @ [player]) (players_by_name pa'),
              players_by_team :=
                 map_modify (team player) [] (\<lambda>v. v @ [player]) (players_by_team pa')\<rparr>)
       pa ps =
   pa\<lparr>players_by_name := foldl (\<lambda>m p. map_modify (player_name p) [] (\<lambda>v. v @ [p]) m) (players_by_name pa) ps,
      players_by_team := foldl (\<lambda>m p. map_modify (team p) [] (\<lambda>v. v @ [p]) m) (players_by_team pa) ps\<rparr>"
  by (induction ps arbitrary: pa) simp_all

lemma all_players_load_data [simp]: "all_players (load_data ps pa) = ps"
  unfolding load_data_def index_players_def index_players_fold by simp

lemma players_by_name_load_data:
  "players_by_name (load_data ps pa) =
     foldl (\<lambda>m p. map_modify (player_name p) [] (\<lambda>v. v @ [p]) m) [] ps"
  unfolding load_data_def index_players_def index_players_fold by simp

lemma players_by_team_load_data:
  "players_by_team (load_data ps pa) =
     foldl (\<lambda>m p. map_modify (team p) [] (\<lambda>v. v @ [p]) m) [] ps"
  unfolding load_data_def index_players_def index_players_fold by simp

lemma find_by_name:
  "map_of (players_by_name (load_data ps pa)) name =
     (if name \<in> player_name ` set ps then Some (filter (\<lambda>p. player_name p = name) ps) else None)"
  unfolding players_by_name_load_data
  by (subst group_fold_map_of) (auto simp: filter_empty_conv)

lemma find_by_team:
  "map_of (players_by_team (load_data ps pa)) t =
     (if t \<in> team ` set ps then Some (filter (\<lambda>p. team p = t) ps) else None)"
  unfolding players_by_team_load_data
  by (subst group_fold_map_of) (auto simp: filter_empty_conv)

lemma by_name_sorted: "sorted_wrt (<) (map fst (players_by_name (load_data ps pa)))"
  unfolding players_by_name_load_data by (rule group_fold_sorted) simp

lemma by_name_keys: "fst ` set (players_by_name (load_data ps pa)) = player_name ` set ps"
  unfolding players_by_name_load_data by (simp add: group_fold_keys)

lemma by_name_entry:
  assumes "(k, v) \<in> set (players_by_name (load_data ps pa))"
  shows "v = filter (\<lambda>p. player_name p = k) ps" "k \<in> player_name ` set ps"
proof -
  have d: "distinct (map fst (players_by_name (load_data ps pa)))"
    using by_name_sorted[of ps pa] by (simp add: strict_sorted_iff)
  have "map_of (players_by_name (load_data ps pa)) k = Some v"
    using d assms by (rule map_of_is_SomeI)
  then show "v = filter (\<lambda>p. player_name p = k) ps" "k \<in> player_name ` set ps"
    unfolding find_by_name by (simp_all split: if_splits)
qed


subsection \<open>Instances of \<open>std::sort\<close>\<close>

lemma std_sort_mset: "std_sort_spec cmp srt \<Longrightarrow> mset (srt xs) = mset xs"
  unfolding std_sort_spec_def by simp

lemma std_sort_length: "std_sort_spec cmp srt \<Longrightarrow> length (srt xs) = length xs"
  by (metis std_sort_mset size_mset)

lemma std_sort_sorted: "std_sort_spec cmp srt \<Longrightarrow> sorted_wrt (\<lambda>a b. \<not> cmp b a) (srt xs)"
  unfolding std_sort_spec_def by simp

lemma std_sort_singleton: "std_sort_spec cmp srt \<Longrightarrow> srt [r] = [r]"
  using std_sort_mset[of cmp srt "[r]"] by simp

lemma std_sort_seasons_sorted:
  assumes "std_sort_spec season_less srt"
  shows "sorted (map season (srt recs))"
proof -
  have "sorted_wrt (\<lambda>a b. \<not> season_less b a) (srt recs)" using assms by (rule std_sort_sorted)
  then have "sorted_wrt (\<lambda>a b. season a \<le> season b) (srt recs)"
    by (simp add: season_less_def not_less)
  then show ?thesis by (simp add: sorted_wrt_map)
qed

lemma insertion_sort_by_season_spec: "std_sort_spec season_less insertion_sort_by_season"
proof -
  have "sorted_wrt (\<lambda>a b. \<not> season_less b a) (sort_key season xs)" for xs
  proof -
    have "sorted (map season (sort_key season xs))" by simp
    then show ?thesis by (simp add: sorted_wrt_map season_less_def not_less)
  qed
  then show ?thesis unfolding std_sort_spec_def insertion_sort_by_season_def by simp
qed


text \<open>When the keys are pairwise distinct, a sorted permutation is the stable sort.\<close>

lemma filter_same_key:
  assumes "distinct ys" and "k \<in> set ys" and "inj_on f (set ys)"
  shows "filter (\<lambda>x. f k = f x) ys = [k]"
proof -
  have "filter (\<lambda>x. f k = f x) ys = filter (\<lambda>x. k = x) ys"
    using assms(2,3) by (intro filter_cong) (auto dest: inj_onD)
  also have "\<dots> = [k]"
    using assms(1,2) by (induction ys) (auto simp: filter_empty_conv)
  finally show ?thesis .
qed

lemma std_sort_distinct_keys:
  assumes "std_sort_spec season_less srt" and "distinct (map season recs)"
  shows "srt recs = sort_key season recs"
proof -
  have m: "mset (srt recs) = mset recs" using assms(1) by (rule std_sort_mset)
  have s: "sorted (map season (srt recs))" using assms(1) by (rule std_sort_seasons_sorted)
  have d: "distinct recs" and i: "inj_on season (set recs)"
    using assms(2) by (simp_all add: distinct_map)
  have se: "set (srt recs) = set recs" using m by (rule mset_eq_setD)
  have ds: "distinct (srt recs)" using m d by (metis mset_eq_imp_distinct_iff)
  have "filter (\<lambda>x. season k = season x) (srt recs) = filter (\<lambda>x. season k = season x) recs"
    if "k \<in> set (srt recs)" for k
  proof -
    have "filter (\<lambda>x. season k = season x) (srt recs) = [k]"
      using ds that i unfolding se[symmetric] by (rule filter_same_key)
    moreover have "filter (\<lambda>x. season k = season x) recs = [k]"
      using d that i unfolding se by (rule filter_same_key)
    ultimately show ?thesis by simp
  qed
  then show ?thesis using m s by (intro properties_for_sort_key[symmetric]) simp_all
qed

section \<open>Time series\<close>

lemma time_series_fold:
  "foldl (time_series_step metric) ts recs =
     ts\<lparr>ts_seasons := ts_seasons ts @ map season recs,
        ts_values := ts_values ts @
          (if supported_metric metric then map (projected_metric metric) recs else [])\<rparr>"
proof (induction recs arbitrary: ts)
  case Nil
  then show ?case by simp
next
  case (Cons r recs)
  show ?case
    unfolding foldl_Cons Cons.IH
    by (simp add: time_series_step_def Let_def supported_metric_def projected_metric_def)
qed

lemma get_player_time_series_found:
  assumes "map_of (players_by_name pa) pname = Some recs"
  shows "get_player_time_series srt pa pname metric =
           \<lparr>ts_seasons = map season (srt recs),
            ts_values = (if supported_metric metric then map (projected_metric metric) (srt recs) else []),
            ts_metric_name = metric, ts_player_name = pname\<rparr>"
  unfolding get_player_time_series_def Let_def time_series_fold using assms by simp

lemma get_player_time_series_absent:
  assumes "map_of (players_by_name pa) pname = None"
  shows "get_player_time_series srt pa pname metric =
           \<lparr>ts_seasons = [], ts_values = [], ts_metric_name = metric, ts_player_name = pname\<rparr>"
  unfolding get_player_time_series_def Let_def using assms by simp

lemma time_series_lengths:
  "ts_values (get_player_time_series srt pa pname metric) = [] \<or>
   length (ts_values (get_player_time_series srt pa pname metric)) =
     length (ts_seasons (get_player_time_series srt pa pname metric))"
proof (cases "map_of (players_by_name pa) pname")
  case None
  then show ?thesis by (simp add: get_player_time_series_absent)
next
  case (Some recs)
  then show ?thesis by (simp add: get_player_time_series_found)
qed

text \<open>
  Claim C4. For a player the store knows and a metric name that is none of \<open>rating\<close>,
  \<open>goals\<close>, \<open>assists\<close>, \<open>goals_per_match\<close>, the series has no values while its seasons
  are the season labels of the player's records, one per record. For a player the
  store does not know, both sequences are empty.
\<close>

theorem unknown_metric_and_unknown_player:
  assumes "std_sort_spec season_less srt"
  shows "(pname \<in> player_name ` set ps \<and> \<not> supported_metric metric \<longrightarrow>
            ts_values (get_player_time_series srt (load_data ps pa) pname metric) = [] \<and>
            mset (ts_seasons (get_player_time_series srt (load_data ps pa) pname metric)) =
              mset (map season (records_of ps pname)) \<and>
            length (ts_seasons (get_player_time_series srt (load_data ps pa) pname metric)) =
              length (records_of ps pname)) \<and>
         (pname \<notin> player_name ` set ps \<longrightarrow>
            ts_values (get_player_time_series srt (load_data ps pa) pname metric) = [] \<and>
            ts_seasons (get_player_time_series srt (load_data ps pa) pname metric) = [])"
proof (cases "pname \<in> player_name ` set ps")
  case True
  then have f: "map_of (players_by_name (load_data ps pa)) pname = Some (records_of ps pname)"
    by (simp add: find_by_name records_of_def)
  have "mset (map season (srt (records_of ps pname))) = mset (map season (records_of ps pname))"
    using std_sort_mset[OF assms, of "records_of ps pname"] by (metis mset_map)
  then show ?thesis
    using True by (simp add: get_player_time_series_found[OF f] std_sort_length[OF assms])
next
  case False
  then have f: "map_of (players_by_name (load_data ps pa)) pname = None"
    by (simp add: find_by_name)
  show ?thesis using False by (simp add: get_player_time_series_absent[OF f])
qed

theorem unknown_metric_and_unknown_player_witness:
  "std_sort_spec season_less insertion_sort_by_season \<and>
   ''A'' \<in> player_name ` set three_eligible \<and> \<not> supported_metric ''shots'' \<and>
   ''Z'' \<notin> player_name ` set three_eligible \<and>
   ts_values (get_player_time_series insertion_sort_by_season
      (load_data three_eligible PerformanceAnalyzer_init) ''A'' ''shots'') = [] \<and>
   length (ts_seasons (get_player_time_series insertion_sort_by_season
      (load_data three_eligible PerformanceAnalyzer_init) ''A'' ''shots'')) = 2 \<and>
   ts_seasons (get_player_time_series insertion_sort_by_season
      (load_data three_eligible PerformanceAnalyzer_init) ''Z'' ''shots'') = []"
proof -
  let ?st = "load_data three_eligible PerformanceAnalyzer_init"
  have a: "''A'' \<in> player_name ` set three_eligible"
    by (simp add: three_eligible_def stats_def)
  have z: "''Z'' \<notin> player_name ` set three_eligible"
    by (simp add: three_eligible_def stats_def)
  have m: "\<not> supported_metric ''shots''" by (simp add: supported_metric_def)
  have l: "length (records_of three_eligible ''A'') = 2"
    by (simp add: records_of_def three_eligible_def stats_def PlayerStats_init_def)
  note ka = unknown_metric_and_unknown_player[OF insertion_sort_by_season_spec,
      of "''A''" three_eligible "''shots''" PerformanceAnalyzer_init]
  note kz = unknown_metric_and_unknown_player[OF insertion_sort_by_season_spec,
      of "''Z''" three_eligible "''shots''" PerformanceAnalyzer_init]
  have "ts_values (get_player_time_series insertion_sort_by_season ?st ''A'' ''shots'') = []"
    using ka a m by simp
  moreover have "length (ts_seasons (get_player_time_series insertion_sort_by_season ?st ''A'' ''shots'')) = 2"
    using ka a m l by simp
  moreover have "ts_seasons (get_player_time_series insertion_sort_by_season ?st ''Z'' ''shots'') = []"
    using kz z by simp
  ultimately show ?thesis using insertion_sort_by_season_spec a m z by (intro conjI)
qed

text \<open>
  Claim C5, as the code has it. For a known player and a supported metric the seasons
  are those of the sorted copy, in non-decreasing order, the values are the metric of
  the same records in the same order, and the sorted copy is a permutation of the
  player's records. The sort is \<open>std::sort\<close>, so nothing is promised about the order
  of two records with the same season label; when the season labels of the player's
  records are pairwise distinct, the series is that of the stable sort. The function
  returns the series only: the copy \<open>player_seasons\<close> is what is sorted, the analyzer
  is read, not written, and its index still holds the player's records in the order of
  \<open>all_players\<close>.
\<close>

theorem time_series_sorted_projection:
  assumes "std_sort_spec season_less srt"
    and "pname \<in> player_name ` set ps"
    and "supported_metric metric"
  shows "ts_seasons (get_player_time_series srt (load_data ps pa) pname metric) =
           map season (srt (records_of ps pname)) \<and>
         ts_values (get_player_time_series srt (load_data ps pa) pname metric) =
           map (projected_metric metric) (srt (records_of ps pname)) \<and>
         mset (srt (records_of ps pname)) = mset (records_of ps pname) \<and>
         sorted (ts_seasons (get_player_time_series srt (load_data ps pa) pname metric)) \<and>
         (distinct (map season (records_of ps pname)) \<longrightarrow>
            ts_seasons (get_player_time_series srt (load_data ps pa) pname metric) =
              map season (sort_key season (records_of ps pname)) \<and>
            ts_values (get_player_time_series srt (load_data ps pa) pname metric) =
              map (projected_metric metric) (sort_key season (records_of ps pname))) \<and>
         map_of (players_by_name (load_data ps pa)) pname = Some (records_of ps pname)"
proof -
  have f: "map_of (players_by_name (load_data ps pa)) pname = Some (records_of ps pname)"
    using assms(2) by (simp add: find_by_name records_of_def)
  have g: "ts_seasons (get_player_time_series srt (load_data ps pa) pname metric) =
           map season (srt (records_of ps pname))"
    and h: "ts_values (get_player_time_series srt (load_data ps pa) pname metric) =
           map (projected_metric metric) (srt (records_of ps pname))"
    unfolding get_player_time_series_found[OF f] using assms(3) by simp_all
  have m: "mset (srt (records_of ps pname)) = mset (records_of ps pname)"
    using assms(1) by (rule std_sort_mset)
  have s: "sorted (ts_seasons (get_player_time_series srt (load_data ps pa) pname metric))"
    unfolding g using assms(1) by (rule std_sort_seasons_sorted)
  have d: "distinct (map season (records_of ps pname)) \<longrightarrow>
            ts_seasons (get_player_time_series srt (load_data ps pa) pname metric) =
              map season (sort_key season (records_of ps pname)) \<and>
            ts_values (get_player_time_series srt (load_data ps pa) pname metric) =
              map (projected_metric metric) (sort_key season (records_of ps pname))"
    unfolding g h using std_sort_distinct_keys[OF assms(1)] by simp
  show ?thesis using g h m s d f by (intro conjI)
qed

theorem time_series_sorted_projection_witness:
  "std_sort_spec season_less insertion_sort_by_season \<and>
   ''A'' \<in> player_name ` set [stats ''A'' ''T'' ''2021-22'' 90, stats ''B'' ''T'' ''2020-21'' 70,
                              stats ''A'' ''T'' ''2020-21'' 80] \<and>
   supported_metric ''rating'' \<and>
   distinct (map season (records_of [stats ''A'' ''T'' ''2021-22'' 90, stats ''B'' ''T'' ''2020-21'' 70,
                                     stats ''A'' ''T'' ''2020-21'' 80] ''A'')) \<and>
   ts_seasons (get_player_time_series insertion_sort_by_season
      (load_data [stats ''A'' ''T'' ''2021-22'' 90, stats ''B'' ''T'' ''2020-21'' 70,
                  stats ''A'' ''T'' ''2020-21'' 80] PerformanceAnalyzer_init) ''A'' ''rating'')
     = [''2020-21'', ''2021-22''] \<and>
   ts_values (get_player_time_series insertion_sort_by_season
      (load_data [stats ''A'' ''T'' ''2021-22'' 90, stats ''B'' ''T'' ''2020-21'' 70,
                  stats ''A'' ''T'' ''2020-21'' 80] PerformanceAnalyzer_init) ''A'' ''rating'')
     = [80, 90]"
proof -
  let ?ps = "[stats ''A'' ''T'' ''2021-22'' 90, stats ''B'' ''T'' ''2020-21'' 70,
              stats ''A'' ''T'' ''2020-21'' 80]"
  have k: "''A'' \<in> player_name ` set ?ps" by (simp add: stats_def)
  have m: "supported_metric ''rating''" by (simp add: supported_metric_def)
  have d: "distinct (map season (records_of ?ps ''A''))"
    by (simp add: records_of_def stats_def)
  have s: "sort_key season (records_of ?ps ''A'') =
             [stats ''A'' ''T'' ''2020-21'' 80, stats ''A'' ''T'' ''2021-22'' 90]"
    by (simp add: records_of_def stats_def PlayerStats_init_def)
  have p: "map (projected_metric ''rating'')
             [stats ''A'' ''T'' ''2020-21'' 80, stats ''A'' ''T'' ''2021-22'' 90] = [80, 90]"
    by (simp add: projected_metric_def stats_def)
  have q: "map season [stats ''A'' ''T'' ''2020-21'' 80, stats ''A'' ''T'' ''2021-22'' 90] =
             [''2020-21'', ''2021-22'']"
    by (simp add: stats_def)
  note t = time_series_sorted_projection[OF insertion_sort_by_season_spec k m,
        of PerformanceAnalyzer_init]
  have a: "ts_seasons (get_player_time_series insertion_sort_by_season
      (load_data ?ps PerformanceAnalyzer_init) ''A'' ''rating'') = [''2020-21'', ''2021-22'']"
    using t d unfolding s q by blast
  have b: "ts_values (get_player_time_series insertion_sort_by_season
      (load_data ?ps PerformanceAnalyzer_init) ''A'' ''rating'') = [80, 90]"
    using t d unfolding s p by blast
  show ?thesis using insertion_sort_by_season_spec k m d a b by (intro conjI)
qed

text \<open>
  Claim C5 as the specification states it asks for a stable sort. On seventeen records
  of one player with the same season label, \<open>std::sort\<close> of libstdc++ takes the ninth
  record as pivot, swaps it to the front and exchanges the others pairwise from both
  ends; the insertion sort that finishes finds nothing to move. The values come out
  in the order \<open>9, 17, 16, ..., 10, 1, 8, 7, ..., 2\<close> of the original positions.
\<close>

theorem stable_order_not_kept:
  "map season (records_of seventeen_ties ''A'') = replicate 17 ''2020-21'' \<and>
   map rating (records_of seventeen_ties ''A'') =
     [1, 2, 3, 4, 5, 6, 7, 8, 9, 10, 11, 12, 13, 14, 15, 16, 17] \<and>
   ts_values (get_player_time_series (std_sort season_less)
      (load_data seventeen_ties PerformanceAnalyzer_init) ''A'' ''rating'') =
     [9, 17, 16, 15, 14, 13, 12, 11, 10, 1, 8, 7, 6, 5, 4, 3, 2]"
  by code_simp

section \<open>Consistency metrics\<close>

lemma cm_player_name_calculate_consistency [simp]:
  "cm_player_name (calculate_consistency srt pa pname) = pname"
  unfolding calculate_consistency_def Let_def ConsistencyMetrics_init_def by simp

lemma get_all_consistency_metrics_eq:
  "get_all_consistency_metrics srt pa =
     map (\<lambda>pair. calculate_consistency srt pa (fst pair))
       (filter (\<lambda>pair. 2 \<le> length (snd pair)) (players_by_name pa))"
proof -
  have aux: "foldl
       (\<lambda>all_metrics pair.
          if 2 \<le> length (snd pair)
          then all_metrics @ [calculate_consistency srt pa (fst pair)]
          else all_metrics)
       acc m =
     acc @ map (\<lambda>pair. calculate_consistency srt pa (fst pair))
       (filter (\<lambda>pair. 2 \<le> length (snd pair)) m)" for acc m
    by (induction m arbitrary: acc) simp_all
  show ?thesis unfolding get_all_consistency_metrics_def aux by simp
qed

lemma pool_names:
  "map cm_player_name (get_all_consistency_metrics srt pa) =
     map fst (filter (\<lambda>pair. 2 \<le> length (snd pair)) (players_by_name pa))"
  unfolding get_all_consistency_metrics_eq by (simp add: comp_def)

lemma pool_names_set:
  "set (map cm_player_name (get_all_consistency_metrics srt (load_data ps pa))) =
     {n \<in> player_name ` set ps. 2 \<le> length (records_of ps n)}"
proof -
  have "set (map fst (filter (\<lambda>pair. 2 \<le> length (snd pair)) (players_by_name (load_data ps pa)))) =
          {n \<in> player_name ` set ps. 2 \<le> length (records_of ps n)}" (is "?L = ?R")
  proof (intro set_eqI iffI)
    fix n assume "n \<in> ?L"
    then obtain v where e: "(n, v) \<in> set (players_by_name (load_data ps pa))" and l: "2 \<le> length v"
      by auto
    from by_name_entry[OF e] l show "n \<in> ?R" by (simp add: records_of_def)
  next
    fix n assume "n \<in> ?R"
    then have n: "n \<in> player_name ` set ps" and l: "2 \<le> length (records_of ps n)" by simp_all
    have "map_of (players_by_name (load_data ps pa)) n = Some (records_of ps n)"
      using n by (simp add: find_by_name records_of_def)
    then have "(n, records_of ps n) \<in> set (players_by_name (load_data ps pa))"
      by (rule map_of_SomeD)
    then show "n \<in> ?L" using l by force
  qed
  then show ?thesis unfolding pool_names .
qed


text \<open>
  Claim C1, as the code has it. For a player with exactly one record,
  \<open>calculate_consistency\<close> returns \<open>seasons_played = 1\<close>, the rating of that record as
  the average, a standard deviation and coefficient of variation of 0 and a consistency
  score of 100; the zeroed record is returned only when the series is empty. The
  player is kept out of the ranking pool by \<open>get_all_consistency_metrics\<close>, which skips
  players with fewer than two records.
\<close>

theorem single_season_consistency:
  assumes "std_sort_spec season_less srt" and "records_of ps pname = [r]"
  shows "calculate_consistency srt (load_data ps pa) pname =
           \<lparr>cm_player_name = pname, cm_average_rating = rating r, cm_std_deviation = 0,
            cm_consistency_score = 100, cm_cv_percentage = 0, cm_seasons_played = 1\<rparr> \<and>
         pname \<notin> set (map cm_player_name (get_all_consistency_metrics srt (load_data ps pa)))"
proof -
  have "r \<in> set (records_of ps pname)" using assms(2) by simp
  then have k: "pname \<in> player_name ` set ps" unfolding records_of_def by auto
  then have f: "map_of (players_by_name (load_data ps pa)) pname = Some [r]"
    using assms(2) by (simp add: find_by_name records_of_def)
  have ts: "get_player_time_series srt (load_data ps pa) pname ''rating'' =
              \<lparr>ts_seasons = [season r], ts_values = [rating r],
               ts_metric_name = ''rating'', ts_player_name = pname\<rparr>"
    unfolding get_player_time_series_found[OF f] std_sort_singleton[OF assms(1)]
    by (simp add: supported_metric_def projected_metric_def)
  have c: "calculate_consistency srt (load_data ps pa) pname =
           \<lparr>cm_player_name = pname, cm_average_rating = rating r, cm_std_deviation = 0,
            cm_consistency_score = 100, cm_cv_percentage = 0, cm_seasons_played = 1\<rparr>"
    unfolding calculate_consistency_def Let_def ts
    by (simp add: ConsistencyMetrics_init_def mean_def std_dev_def coefficient_of_variation_def
        int_of_size_t_def Let_def)
  have "pname \<notin> set (map cm_player_name (get_all_consistency_metrics srt (load_data ps pa)))"
    unfolding pool_names_set using assms(2) by simp
  with c show ?thesis by simp
qed

theorem single_season_consistency_witness:
  "std_sort_spec season_less insertion_sort_by_season \<and>
   records_of [stats ''A'' ''T'' ''2020-21'' 80, stats ''B'' ''T'' ''2020-21'' 70,
               stats ''B'' ''T'' ''2021-22'' 75] ''A'' = [stats ''A'' ''T'' ''2020-21'' 80] \<and>
   calculate_consistency insertion_sort_by_season one_season_store ''A'' =
     \<lparr>cm_player_name = ''A'', cm_average_rating = 80, cm_std_deviation = 0,
      cm_consistency_score = 100, cm_cv_percentage = 0, cm_seasons_played = 1\<rparr> \<and>
   ''A'' \<notin> set (map cm_player_name (get_all_consistency_metrics insertion_sort_by_season one_season_store))"
proof -
  have r: "records_of [stats ''A'' ''T'' ''2020-21'' 80, stats ''B'' ''T'' ''2020-21'' 70,
               stats ''B'' ''T'' ''2021-22'' 75] ''A'' = [stats ''A'' ''T'' ''2020-21'' 80]"
    by (simp add: records_of_def stats_def PlayerStats_init_def)
  have v: "rating (stats ''A'' ''T'' ''2020-21'' 80) = 80" by (simp add: stats_def)
  show ?thesis
    using single_season_consistency[OF insertion_sort_by_season_spec r, of PerformanceAnalyzer_init]
      insertion_sort_by_season_spec r
    unfolding one_season_store_def v by simp
qed

text \<open>
  Claim C1 as the specification states it expects \<open>seasons_played = 0\<close> for a player
  with exactly one season. Player \<open>A\<close> of \<open>one_season_store\<close> has one record and gets
  \<open>seasons_played = 1\<close>.
\<close>

theorem single_season_not_sentinel:
  "length (records_of (all_players one_season_store) ''A'') = 1 \<and>
   cm_seasons_played (calculate_consistency insertion_sort_by_season one_season_store ''A'') = 1"
  by (simp add: one_season_store_def records_of_def calculate_consistency_def
      get_player_time_series_def time_series_step_def insertion_sort_by_season_def
      load_data_def index_players_def PerformanceAnalyzer_init_def stats_def
      PlayerStats_init_def ConsistencyMetrics_init_def int_of_size_t_def Let_def)

section \<open>Queries about unknown players\<close>

lemma find_season_None: "s \<notin> set ss \<Longrightarrow> find_season s ss = None"
  by (induction ss) simp_all

lemma find_season_bound: "find_season s ss = Some j \<Longrightarrow> j < length ss"
  by (induction ss arbitrary: j) (auto split: if_splits)

lemma common_fold_disjoint:
  assumes "\<forall>i\<in>set js. find_season (ts_seasons ts1 ! i) (ts_seasons ts2) = None"
  shows "foldl (common_step ts1 ts2) (Inr acc) js = Inr acc"
  using assms by (induction js) (simp_all add: common_step_def split: prod.splits)

lemma common_fold_defined:
  assumes "length (ts_values ts1) = length (ts_seasons ts1)"
    and "length (ts_values ts2) = length (ts_seasons ts2)"
    and "\<forall>i\<in>set js. i < length (ts_seasons ts1)"
  shows "\<exists>acc'. foldl (common_step ts1 ts2) (Inr acc) js = Inr acc'"
  using assms(3)
proof (induction js arbitrary: acc)
  case Nil
  then show ?case by simp
next
  case (Cons i js)
  have i: "i < length (ts_values ts1)" using Cons.prems assms(1) by simp
  have "\<exists>acc1. common_step ts1 ts2 (Inr acc) i = Inr acc1"
  proof (cases "find_season (ts_seasons ts1 ! i) (ts_seasons ts2)")
    case None
    then show ?thesis by (simp add: common_step_def split: prod.splits)
  next
    case (Some j)
    then have "j < length (ts_values ts2)" using find_season_bound assms(2) by metis
    then show ?thesis using Some i by (simp add: common_step_def vec_at_def split: prod.splits)
  qed
  then obtain acc1 where "common_step ts1 ts2 (Inr acc) i = Inr acc1" ..
  then show ?case using Cons.IH[of acc1] Cons.prems by simp
qed

lemma no_common_seasons_correlation:
  assumes "set (ts_seasons (get_player_time_series srt pa player1 metric)) \<inter>
           set (ts_seasons (get_player_time_series srt pa player2 metric)) = {}"
  shows "calculate_player_correlation srt pa player1 player2 metric = Inr 0"
proof -
  define ts1 where "ts1 = get_player_time_series srt pa player1 metric"
  define ts2 where "ts2 = get_player_time_series srt pa player2 metric"
  have "\<forall>i\<in>set [0..<length (ts_seasons ts1)].
          find_season (ts_seasons ts1 ! i) (ts_seasons ts2) = None"
  proof
    fix i assume "i \<in> set [0..<length (ts_seasons ts1)]"
    then have "ts_seasons ts1 ! i \<in> set (ts_seasons ts1)" by simp
    then have "ts_seasons ts1 ! i \<notin> set (ts_seasons ts2)"
      using assms unfolding ts1_def ts2_def by blast
    then show "find_season (ts_seasons ts1 ! i) (ts_seasons ts2) = None"
      by (rule find_season_None)
  qed
  then have "foldl (common_step ts1 ts2) (Inr ([], [])) [0..<length (ts_seasons ts1)] = Inr ([], [])"
    by (rule common_fold_disjoint)
  then show ?thesis
    unfolding calculate_player_correlation_def Let_def ts1_def[symmetric] ts2_def[symmetric]
    by (simp add: calculate_correlation_def)
qed

text \<open>No read of \<open>calculate_player_correlation\<close> leaves its vector, whatever the store holds.\<close>

lemma calculate_player_correlation_defined:
  "\<exists>v. calculate_player_correlation srt pa player1 player2 metric = Inr v"
proof -
  define ts1 where "ts1 = get_player_time_series srt pa player1 metric"
  define ts2 where "ts2 = get_player_time_series srt pa player2 metric"
  show ?thesis
  proof (cases "ts_values ts1 = [] \<or> ts_values ts2 = []")
    case True
    then show ?thesis
      unfolding calculate_player_correlation_def Let_def ts1_def[symmetric] ts2_def[symmetric]
      by simp
  next
    case False
    then have l1: "length (ts_values ts1) = length (ts_seasons ts1)"
      and l2: "length (ts_values ts2) = length (ts_seasons ts2)"
      using time_series_lengths[of srt pa player1 metric] time_series_lengths[of srt pa player2 metric]
      unfolding ts1_def ts2_def by simp_all
    have "\<exists>acc'. foldl (common_step ts1 ts2) (Inr ([], [])) [0..<length (ts_seasons ts1)] = Inr acc'"
      using l1 l2 by (rule common_fold_defined) simp
    then obtain acc' where
      "foldl (common_step ts1 ts2) (Inr ([], [])) [0..<length (ts_seasons ts1)] = Inr acc'" ..
    then show ?thesis
      unfolding calculate_player_correlation_def Let_def ts1_def[symmetric] ts2_def[symmetric]
      using False by (simp split: prod.splits)
  qed
qed

text \<open>
  Claim C6. For a player name the store does not hold, \<open>get_player_time_series\<close>
  returns the empty series, \<open>calculate_consistency\<close> the zeroed record with
  \<open>seasons_played = 0\<close>, and \<open>calculate_player_correlation\<close> the value 0, whichever of
  the two players is the unknown one; none of them reaches an error. Two players
  without a common season label correlate to 0 as well.
\<close>

theorem unknown_player_queries:
  assumes "pname \<notin> player_name ` set ps"
  shows "get_player_time_series srt (load_data ps pa) pname metric =
           \<lparr>ts_seasons = [], ts_values = [], ts_metric_name = metric, ts_player_name = pname\<rparr> \<and>
         calculate_consistency srt (load_data ps pa) pname = ConsistencyMetrics_init pname \<and>
         cm_seasons_played (calculate_consistency srt (load_data ps pa) pname) = 0 \<and>
         calculate_player_correlation srt (load_data ps pa) pname other metric = Inr 0 \<and>
         calculate_player_correlation srt (load_data ps pa) other pname metric = Inr 0 \<and>
         (set (ts_seasons (get_player_time_series srt (load_data ps pa) player1 metric)) \<inter>
          set (ts_seasons (get_player_time_series srt (load_data ps pa) player2 metric)) = {} \<longrightarrow>
            calculate_player_correlation srt (load_data ps pa) player1 player2 metric = Inr 0)"
proof -
  have f: "map_of (players_by_name (load_data ps pa)) pname = None"
    using assms by (simp add: find_by_name)
  note ts = get_player_time_series_absent[OF f]
  have c: "calculate_consistency srt (load_data ps pa) pname = ConsistencyMetrics_init pname"
    unfolding calculate_consistency_def Let_def ts by simp
  have c1: "calculate_player_correlation srt (load_data ps pa) pname other metric = Inr 0"
    unfolding calculate_player_correlation_def Let_def ts by simp
  have c2: "calculate_player_correlation srt (load_data ps pa) other pname metric = Inr 0"
    unfolding calculate_player_correlation_def Let_def ts by simp
  show ?thesis
    using ts c c1 c2 no_common_seasons_correlation
    by (simp add: ConsistencyMetrics_init_def)
qed

theorem unknown_player_queries_witness:
  "''Z'' \<notin> player_name ` set disjoint_seasons \<and>
   set (ts_seasons (get_player_time_series insertion_sort_by_season
          (load_data disjoint_seasons PerformanceAnalyzer_init) ''A'' ''rating'')) \<inter>
   set (ts_seasons (get_player_time_series insertion_sort_by_season
          (load_data disjoint_seasons PerformanceAnalyzer_init) ''B'' ''rating'')) = {} \<and>
   cm_seasons_played (calculate_consistency insertion_sort_by_season
          (load_data disjoint_seasons PerformanceAnalyzer_init) ''Z'') = 0 \<and>
   calculate_player_correlation insertion_sort_by_season
          (load_data disjoint_seasons PerformanceAnalyzer_init) ''Z'' ''A'' ''rating'' = Inr 0 \<and>
   calculate_player_correlation insertion_sort_by_season
          (load_data disjoint_seasons PerformanceAnalyzer_init) ''A'' ''B'' ''rating'' = Inr 0"
proof -
  let ?st = "load_data disjoint_seasons PerformanceAnalyzer_init"
  have z: "''Z'' \<notin> player_name ` set disjoint_seasons"
    by (simp add: disjoint_seasons_def stats_def)
  have a: "ts_seasons (get_player_time_series insertion_sort_by_season ?st ''A'' ''rating'') = [''2020-21'']"
    by code_simp
  have b: "ts_seasons (get_player_time_series insertion_sort_by_season ?st ''B'' ''rating'') = [''2021-22'']"
    by code_simp
  have d: "set (ts_seasons (get_player_time_series insertion_sort_by_season ?st ''A'' ''rating'')) \<inter>
           set (ts_seasons (get_player_time_series insertion_sort_by_season ?st ''B'' ''rating'')) = {}"
    unfolding a b by simp
  note main = unknown_player_queries[OF z, of insertion_sort_by_season PerformanceAnalyzer_init
      "''rating''" "''A''" "''A''" "''B''"]
  have "cm_seasons_played (calculate_consistency insertion_sort_by_season ?st ''Z'') = 0"
    using main by (elim conjE)
  moreover have "calculate_player_correlation insertion_sort_by_season ?st ''Z'' ''A'' ''rating'' = Inr 0"
    using main by (elim conjE)
  moreover have "calculate_player_correlation insertion_sort_by_season ?st ''A'' ''B'' ''rating'' = Inr 0"
    using main d by (elim conjE impE)
  ultimately show ?thesis using z d by (intro conjI)
qed

section \<open>Team performance by season\<close>

lemma team_season_map_invariant:
  "sorted_wrt (<) (map fst (foldl team_season_step [] ps)) \<and>
   (\<forall>t s. (t, s) \<notin> (\<lambda>p. (team p, season p)) ` set ps \<longrightarrow>
      map_of (foldl team_season_step [] ps) (t, s) = None) \<and>
   (\<forall>t s. (t, s) \<in> (\<lambda>p. (team p, season p)) ` set ps \<longrightarrow>
      (\<exists>perf. map_of (foldl team_season_step [] ps) (t, s) = Some perf \<and>
         tp_team_name perf = t \<and> tp_season perf = s \<and>
         tp_average_rating perf = sum_list (map rating (season_records ps t s))))"
proof (induction ps rule: rev_induct)
  case Nil
  show ?case by simp
next
  case (snoc p ps)
  define M where "M = foldl team_season_step [] ps"
  have srt: "sorted_wrt (<) (map fst M)" using snoc unfolding M_def by simp
  have none: "\<And>t s. (t, s) \<notin> (\<lambda>p. (team p, season p)) ` set ps \<Longrightarrow> map_of M (t, s) = None"
    using snoc unfolding M_def by blast
  have some: "\<And>t s. (t, s) \<in> (\<lambda>p. (team p, season p)) ` set ps \<Longrightarrow>
      \<exists>perf. map_of M (t, s) = Some perf \<and>
         tp_team_name perf = t \<and> tp_season perf = s \<and>
         tp_average_rating perf = sum_list (map rating (season_records ps t s))"
    using snoc unfolding M_def by blast
  have step: "foldl team_season_step [] (ps @ [p]) = team_season_step M p"
    unfolding M_def by simp
  have lookup: "map_of (team_season_step M p) k =
      (if k = (team p, season p)
       then Some ((case map_of M (team p, season p) of None \<Rightarrow> TeamPerformance_init | Some v \<Rightarrow> v)
              \<lparr>tp_team_name := team p,
               tp_season := season p,
               tp_total_goals := tp_total_goals (case map_of M (team p, season p) of None \<Rightarrow> TeamPerformance_init | Some v \<Rightarrow> v) + goals p,
               tp_total_assists := tp_total_assists (case map_of M (team p, season p) of None \<Rightarrow> TeamPerformance_init | Some v \<Rightarrow> v) + assists p,
               tp_total_matches := tp_total_matches (case map_of M (team p, season p) of None \<Rightarrow> TeamPerformance_init | Some v \<Rightarrow> v) + matches_played p,
               tp_average_rating := tp_average_rating (case map_of M (team p, season p) of None \<Rightarrow> TeamPerformance_init | Some v \<Rightarrow> v) + rating p\<rparr>)
       else map_of M k)" for k
    unfolding team_season_step_def by (simp add: map_of_map_modify[OF srt])
  have c1: "sorted_wrt (<) (map fst (team_season_step M p))"
    unfolding team_season_step_def using srt by (rule map_modify_sorted)
  have c2: "map_of (team_season_step M p) (t, s) = None"
    if "(t, s) \<notin> (\<lambda>p. (team p, season p)) ` set (ps @ [p])" for t s
  proof -
    have "(t, s) \<noteq> (team p, season p)" and "(t, s) \<notin> (\<lambda>p. (team p, season p)) ` set ps"
      using that by auto
    then show ?thesis using none by (simp add: lookup)
  qed
  have c3: "\<exists>perf. map_of (team_season_step M p) (t, s) = Some perf \<and>
         tp_team_name perf = t \<and> tp_season perf = s \<and>
         tp_average_rating perf = sum_list (map rating (season_records (ps @ [p]) t s))"
    if "(t, s) \<in> (\<lambda>p. (team p, season p)) ` set (ps @ [p])" for t s
  proof (cases "(t, s) = (team p, season p)")
    case True
    then have ts: "t = team p" "s = season p" by simp_all
    show ?thesis
    proof (cases "(t, s) \<in> (\<lambda>p. (team p, season p)) ` set ps")
      case old: True
      from some[OF old] obtain perf where
        perf: "map_of M (t, s) = Some perf"
          "tp_average_rating perf = sum_list (map rating (season_records ps t s))" by blast
      show ?thesis using perf unfolding lookup ts
        by (simp add: season_records_def)
    next
      case new: False
      then have "season_records ps t s = []"
        unfolding season_records_def by (auto simp: filter_empty_conv)
      moreover have "map_of M (t, s) = None" using none[OF new] .
      ultimately show ?thesis unfolding lookup ts
        by (simp add: season_records_def TeamPerformance_init_def)
    qed
  next
    case False
    then have old: "(t, s) \<in> (\<lambda>p. (team p, season p)) ` set ps" using that by auto
    have "season_records (ps @ [p]) t s = season_records ps t s"
      using False unfolding season_records_def by auto
    then show ?thesis using some[OF old] False by (auto simp: lookup)
  qed
  show ?case unfolding step using c1 c2 c3 by blast
qed

lemma team_season_keys:
  "fst ` set (foldl team_season_step [] ps) = (\<lambda>p. (team p, season p)) ` set ps"
proof -
  have "fst ` set (foldl team_season_step M ps) = fst ` set M \<union> (\<lambda>p. (team p, season p)) ` set ps" for M
    by (induction ps arbitrary: M) (simp_all add: team_season_step_def map_modify_keys)
  then show ?thesis by simp
qed

lemma team_season_sorted: "sorted_wrt (<) (map fst (foldl team_season_step [] ps))"
  using team_season_map_invariant[of ps] by (rule conjunct1)

lemma team_season_some:
  assumes "(t, s) \<in> (\<lambda>p. (team p, season p)) ` set ps"
  shows "\<exists>perf. map_of (foldl team_season_step [] ps) (t, s) = Some perf \<and>
         tp_team_name perf = t \<and> tp_season perf = s \<and>
         tp_average_rating perf = sum_list (map rating (season_records ps t s))"
proof -
  have "\<forall>t s. (t, s) \<in> (\<lambda>p. (team p, season p)) ` set ps \<longrightarrow>
      (\<exists>perf. map_of (foldl team_season_step [] ps) (t, s) = Some perf \<and>
         tp_team_name perf = t \<and> tp_season perf = s \<and>
         tp_average_rating perf = sum_list (map rating (season_records ps t s)))"
    using team_season_map_invariant[of ps] by (rule conjunct2[THEN conjunct2])
  then show ?thesis using assms by (elim allE impE)
qed

lemma team_season_entry:
  assumes "(k, perf) \<in> set (foldl team_season_step [] ps)"
  shows "k \<in> (\<lambda>p. (team p, season p)) ` set ps"
    and "tp_team_name perf = fst k" and "tp_season perf = snd k"
    and "tp_average_rating perf = sum_list (map rating (season_records ps (fst k) (snd k)))"
proof -
  have d: "distinct (map fst (foldl team_season_step [] ps))"
    using team_season_sorted[of ps] by (simp add: strict_sorted_iff)
  have m: "map_of (foldl team_season_step [] ps) k = Some perf"
    using d assms by (rule map_of_is_SomeI)
  have "fst (k, perf) \<in> fst ` set (foldl team_season_step [] ps)"
    using assms by (rule imageI)
  then show k: "k \<in> (\<lambda>p. (team p, season p)) ` set ps"
    unfolding team_season_keys by simp
  obtain t s where ts: "k = (t, s)" by (cases k)
  have "(t, s) \<in> (\<lambda>p. (team p, season p)) ` set ps" using k ts by simp
  from team_season_some[OF this] obtain perf' where p':
    "map_of (foldl team_season_step [] ps) (t, s) = Some perf'"
    "tp_team_name perf' = t" "tp_season perf' = s"
    "tp_average_rating perf' = sum_list (map rating (season_records ps t s))"
    by (elim exE conjE)
  have "perf' = perf" using m p'(1) ts by simp
  then show "tp_team_name perf = fst k" "tp_season perf = snd k"
    "tp_average_rating perf = sum_list (map rating (season_records ps (fst k) (snd k)))"
    using p'(2-4) ts by simp_all
qed

lemma team_average_fold:
  assumes "\<forall>pair\<in>set M. tp_team_name (snd pair) \<in> team ` set ps"
  shows "foldl team_average_step (res, players_by_team (load_data ps pa)) M =
           (res @ map (\<lambda>pair. averaged ps (snd pair)) M, players_by_team (load_data ps pa))"
  using assms
proof (induction M arbitrary: res)
  case Nil
  then show ?case by simp
next
  case (Cons e M)
  have t: "tp_team_name (snd e) \<in> team ` set ps" using Cons.prems by simp
  have s: "map_subscript (tp_team_name (snd e)) [] (players_by_team (load_data ps pa)) =
             (team_records ps (tp_team_name (snd e)), players_by_team (load_data ps pa))"
    unfolding map_subscript_def using t by (simp add: find_by_team team_records_def)
  have "team_average_step (res, players_by_team (load_data ps pa)) e =
          (res @ [averaged ps (snd e)], players_by_team (load_data ps pa))"
    by (simp add: team_average_step_def Let_def s averaged_def)
  then show ?case using Cons by simp
qed

lemma get_team_performance_by_season_eq:
  "get_team_performance_by_season (load_data ps pa) =
     (map (\<lambda>pair. averaged ps (snd pair)) (foldl team_season_step [] ps), load_data ps pa)"
proof -
  have "\<forall>pair\<in>set (foldl team_season_step [] ps). tp_team_name (snd pair) \<in> team ` set ps"
  proof
    fix pair assume p: "pair \<in> set (foldl team_season_step [] ps)"
    obtain k perf where kp: "pair = (k, perf)" by (cases pair)
    have e: "(k, perf) \<in> set (foldl team_season_step [] ps)" using p kp by simp
    from team_season_entry(1)[OF e] obtain q where q: "q \<in> set ps" "k = (team q, season q)"
      by (elim imageE)
    have "tp_team_name perf = team q" using team_season_entry(2)[OF e] q(2) by simp
    then show "tp_team_name (snd pair) \<in> team ` set ps" using q(1) kp by simp
  qed
  from team_average_fold[OF this, of "[]" pa]
  show ?thesis unfolding get_team_performance_by_season_def Let_def by simp
qed

text \<open>
  Claim C2. Every entry returned by \<open>get_team_performance_by_season\<close> has as
  \<open>average_rating\<close> the sum of the ratings of the records of its team in its season,
  divided by the number of records of that team in all seasons. The entries are
  exactly the (team, season) pairs that occur in the records.
\<close>

theorem team_average_rating_denominator:
  "(\<forall>tp\<in>set (fst (get_team_performance_by_season (load_data ps pa))).
      tp_average_rating tp =
        sum_list (map rating (season_records ps (tp_team_name tp) (tp_season tp)))
          / real (length (team_records ps (tp_team_name tp)))) \<and>
   (\<lambda>tp. (tp_team_name tp, tp_season tp)) ` set (fst (get_team_performance_by_season (load_data ps pa)))
     = (\<lambda>p. (team p, season p)) ` set ps"
proof (intro conjI ballI)
  fix tp assume "tp \<in> set (fst (get_team_performance_by_season (load_data ps pa)))"
  then have "tp \<in> (\<lambda>pair. averaged ps (snd pair)) ` set (foldl team_season_step [] ps)"
    unfolding get_team_performance_by_season_eq by simp
  then obtain pair where pr: "pair \<in> set (foldl team_season_step [] ps)"
    and tp0: "tp = averaged ps (snd pair)" by (elim imageE)
  obtain k perf where kp: "pair = (k, perf)" by (cases pair)
  have e: "(k, perf) \<in> set (foldl team_season_step [] ps)" using pr kp by simp
  have tp: "tp = averaged ps perf" using tp0 kp by simp
  note f = team_season_entry[OF e]
  have nm: "tp_team_name tp = fst k" "tp_season tp = snd k"
    unfolding tp averaged_def using f(2,3) by simp_all
  from f(1) obtain p where p: "p \<in> set ps" "k = (team p, season p)" by (elim imageE)
  then have "p \<in> set ps" "team p = fst k" by simp_all
  then have "p \<in> set (team_records ps (fst k))" unfolding team_records_def by simp
  then have pos: "length (team_records ps (fst k)) > 0" by (metis length_pos_if_in_set)
  have "tp_average_rating tp =
          tp_average_rating perf / real (length (team_records ps (fst k)))"
    unfolding tp averaged_def using pos f(2) by simp
  then show "tp_average_rating tp =
        sum_list (map rating (season_records ps (tp_team_name tp) (tp_season tp)))
          / real (length (team_records ps (tp_team_name tp)))"
    unfolding nm f(4) .
next
  have "(\<lambda>tp. (tp_team_name tp, tp_season tp)) ` set (map (\<lambda>pair. averaged ps (snd pair)) (foldl team_season_step [] ps))
          = fst ` set (foldl team_season_step [] ps)"
  proof -
    have "(tp_team_name (averaged ps (snd pair)), tp_season (averaged ps (snd pair))) = fst pair"
      if "pair \<in> set (foldl team_season_step [] ps)" for pair
    proof -
      obtain k perf where kp: "pair = (k, perf)" by (cases pair)
      have e: "(k, perf) \<in> set (foldl team_season_step [] ps)" using that kp by simp
      from team_season_entry(2,3)[OF e] kp show ?thesis
        by (simp add: averaged_def)
    qed
    then show ?thesis by (simp add: image_image)
  qed
  then show "(\<lambda>tp. (tp_team_name tp, tp_season tp)) ` set (fst (get_team_performance_by_season (load_data ps pa)))
     = (\<lambda>p. (team p, season p)) ` set ps"
    unfolding get_team_performance_by_season_eq team_season_keys by simp
qed

theorem team_average_rating_denominator_witness:
  "fst (get_team_performance_by_season (load_data two_seasons PerformanceAnalyzer_init)) =
     [TeamPerformance_init\<lparr>tp_team_name := ''T'', tp_season := ''2020-21'', tp_average_rating := 35\<rparr>,
      TeamPerformance_init\<lparr>tp_team_name := ''T'', tp_season := ''2021-22'', tp_average_rating := 45\<rparr>] \<and>
   (35 :: real) = sum_list (map rating (season_records two_seasons ''T'' ''2020-21''))
          / real (length (team_records two_seasons ''T'')) \<and>
   sum_list (map rating (season_records two_seasons ''T'' ''2020-21'')) = 210 \<and>
   length (season_records two_seasons ''T'' ''2020-21'') = 3 \<and>
   length (team_records two_seasons ''T'') = 6"
proof -
  let ?tp = "TeamPerformance_init\<lparr>tp_team_name := ''T'', tp_season := ''2020-21'', tp_average_rating := 35\<rparr>"
  have r: "fst (get_team_performance_by_season (load_data two_seasons PerformanceAnalyzer_init)) =
     [?tp,
      TeamPerformance_init\<lparr>tp_team_name := ''T'', tp_season := ''2021-22'', tp_average_rating := 45\<rparr>]"
    by code_simp
  then have mem: "?tp \<in> set (fst (get_team_performance_by_season (load_data two_seasons PerformanceAnalyzer_init)))"
    by simp
  have "tp_average_rating ?tp =
        sum_list (map rating (season_records two_seasons (tp_team_name ?tp) (tp_season ?tp)))
          / real (length (team_records two_seasons (tp_team_name ?tp)))"
    using team_average_rating_denominator[of two_seasons PerformanceAnalyzer_init,
        THEN conjunct1, THEN bspec, OF mem] .
  then have a: "(35 :: real) = sum_list (map rating (season_records two_seasons ''T'' ''2020-21''))
          / real (length (team_records two_seasons ''T''))"
    by (simp add: TeamPerformance_init_def)
  have b: "sum_list (map rating (season_records two_seasons ''T'' ''2020-21'')) = 210"
    "length (season_records two_seasons ''T'' ''2020-21'') = 3"
    "length (team_records two_seasons ''T'') = 6"
    by (simp_all add: season_records_def team_records_def two_seasons_def stats_def PlayerStats_init_def)
  show ?thesis by (intro conjI r a b)
qed

section \<open>Ranking\<close>



lemma update_fold_length:
  "length (foldl (\<lambda>rs i. rs[i := g i (rs ! i)]) rs js) = length rs"
  by (induction js arbitrary: rs) simp_all


lemma assign_ranks_length [simp]: "length (assign_ranks limit rankings) = length rankings"
  unfolding assign_ranks_def by (rule update_fold_length)



lemma pr_player_name_make_ranking [simp]:
  "pr_player_name (make_ranking pa m) = cm_player_name m"
  unfolding make_ranking_def Let_def by (simp split: option.splits list.splits)

lemma pr_rank_make_ranking [simp]: "pr_rank (make_ranking pa m) = None"
  unfolding make_ranking_def Let_def by (simp split: option.splits list.splits)




end
